theory Spec2Isabelle
  imports Main "HOL-Library.Char_ord" "HOL-Library.List_Lexorder" "HOL-Library.Multiset"
    "HOL-Library.AList" "HOL-Library.Sublist"
begin

section \<open>Data model (graph/node.ts, graph/edge.ts as used by graph/rpg.ts)\<close>

text \<open>
  Nodes and edges are plain objects. A node carries \<open>id\<close>, \<open>type\<close>, \<open>feature\<close>, and the
  optional \<open>metadata\<close>, \<open>directoryPath\<close> and \<open>sourceCode\<close>; an optional field that is absent
  is \<open>None\<close>. The open bag \<open>metadata.extra\<close> is an association list in property order.
\<close>

datatype NodeType = HighLevel | LowLevel

datatype EdgeType = Functional | Dependency

datatype EntityType = EModule | EFile | EClass | EFunction | EMethod

datatype DependencyType = DImport | DCall | DInherit | DImplement | DUse

datatype jvalue = JString string | JStrings "string list" | JNumber int | JBool bool

record SemanticFeature =
  description :: string
  feature_keywords :: "string list option"
  subFeatures :: "string list option"

record StructuralMetadata =
  entityType :: EntityType
  path :: "string option"
  qualifiedName :: "string option"
  language :: "string option"
  startLine :: "nat option"
  endLine :: "nat option"
  extra :: "(string \<times> jvalue) list option"

record Node =
  node_id :: string
  node_type :: NodeType
  feature :: SemanticFeature
  metadata :: "StructuralMetadata option"
  directoryPath :: "string option"
  sourceCode :: "string option"

text \<open>\<open>Partial<Node>\<close>: every field optional; \<open>None\<close> is a key the object does not have.\<close>

record PartialNode =
  p_id :: "string option"
  p_type :: "NodeType option"
  p_feature :: "SemanticFeature option"
  p_metadata :: "StructuralMetadata option"
  p_directoryPath :: "string option"
  p_sourceCode :: "string option"

record Edge =
  source :: string
  target :: string
  edge_type :: EdgeType
  level :: "int option"
  siblingOrder :: "int option"
  dependencyType :: "DependencyType option"
  isRuntime :: "bool option"
  line :: "int option"

definition isHighLevelNode :: "Node \<Rightarrow> bool" where
  "isHighLevelNode n \<longleftrightarrow> node_type n = HighLevel"

definition isLowLevelNode :: "Node \<Rightarrow> bool" where
  "isLowLevelNode n \<longleftrightarrow> node_type n = LowLevel"

definition isFunctionalEdge :: "Edge \<Rightarrow> bool" where
  "isFunctionalEdge e \<longleftrightarrow> edge_type e = Functional"

definition isDependencyEdge :: "Edge \<Rightarrow> bool" where
  "isDependencyEdge e \<longleftrightarrow> edge_type e = Dependency"

text \<open>
  Modelled from the spec: \<open>createFunctionalEdge\<close> (graph/edge.ts, not among the sources;
  the test "createFunctionalEdge creates valid edge" fixes its result): the parameters
  with the tag \<open>functional\<close>.
\<close>

definition createFunctionalEdge :: "string \<Rightarrow> string \<Rightarrow> int option \<Rightarrow> int option \<Rightarrow> Edge" where
  "createFunctionalEdge s t lv so =
     \<lparr>source = s, target = t, edge_type = Functional, level = lv, siblingOrder = so,
      dependencyType = None, isRuntime = None, line = None\<rparr>"

section \<open>The graph (RepositoryPlanningGraph, graph/rpg.ts)\<close>

text \<open>
  The class wraps a graphology graph created with \<open>multi: true, type: 'directed'\<close>. The
  model keeps what the class reads from it: the nodes as (key, attributes) in insertion
  order and the edges as (key, attributes) in insertion order. The library calls are
  modelled by their documented behaviour: \<open>addNode\<close> and \<open>addEdgeWithKey\<close> throw when the
  key is already present, \<open>mergeNodeAttributes\<close> is \<open>Object.assign\<close> on the attributes,
  \<open>dropNode\<close> removes the node with every edge attached to it.

  A method that can throw returns the error (or \<open>None\<close>) together with the graph after the
  call, so that what a failing call leaves behind can be stated.
\<close>

record RPGConfig =
  name :: string
  rootPath :: "string option"
  cfg_description :: "string option"

record RPG =
  config :: RPGConfig
  nodes :: "(string \<times> Node) list"
  edges :: "(string \<times> Edge) list"

datatype error =
    NodeExists string
  | NodeNotFound string
  | SourceNotFound string
  | TargetNotFound string
  | EdgeKeyExists string

definition newRPG :: "RPGConfig \<Rightarrow> RPG" where
  "newRPG c = \<lparr>config = c, nodes = [], edges = []\<rparr>"

definition hasNode :: "RPG \<Rightarrow> string \<Rightarrow> bool" where
  "hasNode g i \<longleftrightarrow> i \<in> fst ` set (nodes g)"

definition addNode :: "Node \<Rightarrow> RPG \<Rightarrow> error option \<times> RPG" where
  "addNode n g =
     (if hasNode g (node_id n) then (Some (NodeExists (node_id n)), g)
      else (None, g\<lparr>nodes := nodes g @ [(node_id n, n)]\<rparr>))"

definition getNode :: "RPG \<Rightarrow> string \<Rightarrow> Node option" where
  "getNode g i = (if \<not> hasNode g i then None else map_of (nodes g) i)"

text \<open>\<open>Object.assign(attributes, updates)\<close>: each key of the update replaces the attribute.\<close>

definition mergeNodeAttributes :: "Node \<Rightarrow> PartialNode \<Rightarrow> Node" where
  "mergeNodeAttributes n u =
     \<lparr>node_id = (case p_id u of None \<Rightarrow> node_id n | Some v \<Rightarrow> v),
      node_type = (case p_type u of None \<Rightarrow> node_type n | Some v \<Rightarrow> v),
      feature = (case p_feature u of None \<Rightarrow> feature n | Some v \<Rightarrow> v),
      metadata = (case p_metadata u of None \<Rightarrow> metadata n | Some v \<Rightarrow> Some v),
      directoryPath = (case p_directoryPath u of None \<Rightarrow> directoryPath n | Some v \<Rightarrow> Some v),
      sourceCode = (case p_sourceCode u of None \<Rightarrow> sourceCode n | Some v \<Rightarrow> Some v)\<rparr>"

definition updateNode :: "string \<Rightarrow> PartialNode \<Rightarrow> RPG \<Rightarrow> error option \<times> RPG" where
  "updateNode i u g =
     (if \<not> hasNode g i then (Some (NodeNotFound i), g)
      else (None, g\<lparr>nodes := map (\<lambda>(k, n). if k = i then (k, mergeNodeAttributes n u) else (k, n))
                                (nodes g)\<rparr>))"

definition removeNode :: "string \<Rightarrow> RPG \<Rightarrow> error option \<times> RPG" where
  "removeNode i g =
     (if \<not> hasNode g i then (Some (NodeNotFound i), g)
      else (None, g\<lparr>nodes := filter (\<lambda>(k, n). k \<noteq> i) (nodes g),
                     edges := filter (\<lambda>(k, e). source e \<noteq> i \<and> target e \<noteq> i) (edges g)\<rparr>))"

definition getNodes :: "RPG \<Rightarrow> Node list" where
  "getNodes g = map snd (nodes g)"

definition getHighLevelNodes :: "RPG \<Rightarrow> Node list" where
  "getHighLevelNodes g = filter isHighLevelNode (getNodes g)"

definition getLowLevelNodes :: "RPG \<Rightarrow> Node list" where
  "getLowLevelNodes g = filter isLowLevelNode (getNodes g)"

text \<open>The edge key \<open>`${edge.source}->${edge.target}:${edge.type}`\<close>.\<close>

definition edgeTypeString :: "EdgeType \<Rightarrow> string" where
  "edgeTypeString t = (case t of Functional \<Rightarrow> ''functional'' | Dependency \<Rightarrow> ''dependency'')"

definition edgeKey :: "Edge \<Rightarrow> string" where
  "edgeKey e = source e @ ''->'' @ target e @ '':'' @ edgeTypeString (edge_type e)"

definition addEdge :: "Edge \<Rightarrow> RPG \<Rightarrow> error option \<times> RPG" where
  "addEdge e g =
     (if \<not> hasNode g (source e) then (Some (SourceNotFound (source e)), g)
      else if \<not> hasNode g (target e) then (Some (TargetNotFound (target e)), g)
      else if edgeKey e \<in> fst ` set (edges g) then (Some (EdgeKeyExists (edgeKey e)), g)
      else (None, g\<lparr>edges := edges g @ [(edgeKey e, e)]\<rparr>))"

definition addFunctionalEdge ::
  "string \<Rightarrow> string \<Rightarrow> int option \<Rightarrow> int option \<Rightarrow> RPG \<Rightarrow> error option \<times> RPG" where
  "addFunctionalEdge s t lv so g = addEdge (createFunctionalEdge s t lv so) g"

definition getEdges :: "RPG \<Rightarrow> Edge list" where
  "getEdges g = map snd (edges g)"

definition getFunctionalEdges :: "RPG \<Rightarrow> Edge list" where
  "getFunctionalEdges g = filter isFunctionalEdge (getEdges g)"

definition getOutEdges :: "RPG \<Rightarrow> string \<Rightarrow> EdgeType option \<Rightarrow> Edge list" where
  "getOutEdges g i ty =
     (if \<not> hasNode g i then []
      else let es = filter (\<lambda>e. source e = i) (getEdges g)
           in (case ty of Some t \<Rightarrow> filter (\<lambda>e. edge_type e = t) es | None \<Rightarrow> es))"

definition getInEdges :: "RPG \<Rightarrow> string \<Rightarrow> EdgeType option \<Rightarrow> Edge list" where
  "getInEdges g i ty =
     (if \<not> hasNode g i then []
      else let es = filter (\<lambda>e. target e = i) (getEdges g)
           in (case ty of Some t \<Rightarrow> filter (\<lambda>e. edge_type e = t) es | None \<Rightarrow> es))"

definition getChildren :: "RPG \<Rightarrow> string \<Rightarrow> Node list" where
  "getChildren g i =
     List.map_filter (\<lambda>e. getNode g (target e)) (getOutEdges g i (Some Functional))"

definition getParent :: "RPG \<Rightarrow> string \<Rightarrow> Node option" where
  "getParent g i =
     (case getInEdges g i (Some Functional) of [] \<Rightarrow> None | e # _ \<Rightarrow> getNode g (source e))"

definition getDependencies :: "RPG \<Rightarrow> string \<Rightarrow> Node list" where
  "getDependencies g i =
     List.map_filter (\<lambda>e. getNode g (target e)) (getOutEdges g i (Some Dependency))"

definition getDependents :: "RPG \<Rightarrow> string \<Rightarrow> Node list" where
  "getDependents g i =
     List.map_filter (\<lambda>e. getNode g (source e)) (getInEdges g i (Some Dependency))"

text \<open>
  The graphs a program can build: from the constructor by the mutating methods
  (\<open>addHighLevelNode\<close>, \<open>addLowLevelNode\<close>, \<open>addFunctionalEdge\<close>, \<open>addDependencyEdge\<close> and
  \<open>deserialize\<close> only call \<open>addNode\<close> and \<open>addEdge\<close>). A call that throws leaves the graph
  as it was, which \<open>snd\<close> of the result is.
\<close>

inductive reachable :: "RPG \<Rightarrow> bool" where
  reach_new: "reachable (newRPG c)"
| reach_addNode: "reachable g \<Longrightarrow> reachable (snd (addNode n g))"
| reach_updateNode: "reachable g \<Longrightarrow> reachable (snd (updateNode i u g))"
| reach_removeNode: "reachable g \<Longrightarrow> reachable (snd (removeNode i g))"
| reach_addEdge: "reachable g \<Longrightarrow> reachable (snd (addEdge e g))"

text \<open>The edges of a graph that have the identity (source, target, type) of \<open>e\<close>.\<close>

definition sameIdentity :: "Edge \<Rightarrow> Edge \<Rightarrow> bool" where
  "sameIdentity e x \<longleftrightarrow> source x = source e \<and> target x = target e \<and> edge_type x = edge_type e"

text \<open>Example values used by the closed theorems below.\<close>

definition exFeature :: "string \<Rightarrow> SemanticFeature" where
  "exFeature d = \<lparr>description = d, feature_keywords = None, subFeatures = None\<rparr>"

definition exHigh :: "string \<Rightarrow> Node" where
  "exHigh i = \<lparr>node_id = i, node_type = HighLevel, feature = exFeature i, metadata = None,
              directoryPath = None, sourceCode = None\<rparr>"

definition exConfig :: RPGConfig where
  "exConfig = \<lparr>name = ''test'', rootPath = None, cfg_description = None\<rparr>"

definition exGraphAB :: RPG where
  "exGraphAB = snd (addNode (exHigh ''b'') (snd (addNode (exHigh ''a'') (newRPG exConfig))))"

definition exEdgeAB :: Edge where
  "exEdgeAB = createFunctionalEdge ''a'' ''b'' None None"

definition exGraphABC :: RPG where
  "exGraphABC = snd (addNode (exHigh ''c'') exGraphAB)"

definition exCycle :: RPG where
  "exCycle = snd (addFunctionalEdge ''b'' ''a'' None None
                   (snd (addFunctionalEdge ''a'' ''b'' None None exGraphAB)))"

definition exTwoParents :: RPG where
  "exTwoParents = snd (addFunctionalEdge ''b'' ''c'' None None
                        (snd (addFunctionalEdge ''a'' ''c'' None None exGraphABC)))"

definition endpoints :: "Edge \<Rightarrow> string \<times> string" where
  "endpoints e = (source e, target e)"

definition exLow :: "string \<Rightarrow> string \<Rightarrow> Node" where
  "exLow i p = \<lparr>node_id = i, node_type = LowLevel,
       feature = \<lparr>description = ''parse arguments'', feature_keywords = Some [''parse''],
                  subFeatures = None\<rparr>,
       metadata = Some \<lparr>entityType = EFile, path = Some p, qualifiedName = None, language = None,
                        startLine = None, endLine = None, extra = Some [(''owner'', JString ''x'')]\<rparr>,
       directoryPath = None, sourceCode = None\<rparr>"

definition exGraphLow :: RPG where
  "exGraphLow = snd (addNode (exLow ''f'' ''src/a.ts'') (newRPG exConfig))"

definition exUpdateFeature :: PartialNode where
  "exUpdateFeature = \<lparr>p_id = None, p_type = None,
       p_feature = Some \<lparr>description = ''render template'', feature_keywords = None,
                         subFeatures = None\<rparr>,
       p_metadata = None, p_directoryPath = None, p_sourceCode = None\<rparr>"

definition exUpdateMetadata :: PartialNode where
  "exUpdateMetadata = \<lparr>p_id = None, p_type = None, p_feature = None,
       p_metadata = Some \<lparr>entityType = EFile, path = None, qualifiedName = None, language = None,
                          startLine = None, endLine = None, extra = Some [(''seen'', JBool True)]\<rparr>,
       p_directoryPath = None, p_sourceCode = None\<rparr>"

section \<open>JavaScript string and array helpers\<close>

text \<open>\<open>Array.prototype.join\<close>, \<open>String.prototype.split\<close> on a one-character separator,
  \<open>Array.prototype.slice\<close> and \<open>String(n)\<close> for a non-negative integer.\<close>

fun join :: "string \<Rightarrow> string list \<Rightarrow> string" where
  "join sep [] = []"
| "join sep [x] = x"
| "join sep (x # y # ys) = x @ sep @ join sep (y # ys)"

fun split :: "char \<Rightarrow> string \<Rightarrow> string list" where
  "split c [] = [[]]"
| "split c (x # xs) =
     (if x = c then [] # split c xs
      else (case split c xs of [] \<Rightarrow> [[x]] | s # ss \<Rightarrow> (x # s) # ss))"

definition slice :: "'a list \<Rightarrow> int \<Rightarrow> int \<Rightarrow> 'a list" where
  "slice xs s e =
     (let n = int (length xs);
          s' = (if s < 0 then max (n + s) 0 else min s n);
          e' = (if e < 0 then max (n + e) 0 else min e n)
      in take (nat (e' - s')) (drop (nat s') xs))"

definition digit :: "nat \<Rightarrow> char" where
  "digit d = ''0123456789'' ! d"

function String :: "nat \<Rightarrow> string" where
  "String n = (if n < 10 then [digit n] else String (n div 10) @ [digit (n mod 10)])"
  by pat_completeness auto
termination
  by (relation "measure (\<lambda>n. n)") auto

declare String.simps [simp del]

section \<open>Entity ids of the encoder (encoder/encoder.ts)\<close>

datatype CodeEntityType = CFunction | CClass | CMethod | CVariable | CImport

record CodeEntity =
  ce_type :: CodeEntityType
  ce_name :: string
  ce_startLine :: nat
  ce_endLine :: nat
  ce_parent :: "string option"

record ExtractedMetadata =
  em_entityType :: EntityType
  em_path :: string
  em_startLine :: "nat option"
  em_endLine :: "nat option"

record ExtractedEntity =
  ee_id :: string
  ee_feature :: SemanticFeature
  ee_metadata :: ExtractedMetadata
  ee_sourceCode :: "string option"

record EntityInput =
  ei_type :: string
  ei_name :: string
  ei_filePath :: string
  ei_parent :: "string option"
  ei_sourceCode :: "string option"

definition codeEntityTypeString :: "CodeEntityType \<Rightarrow> string" where
  "codeEntityTypeString t =
     (case t of CFunction \<Rightarrow> ''function'' | CClass \<Rightarrow> ''class'' | CMethod \<Rightarrow> ''method''
      | CVariable \<Rightarrow> ''variable'' | CImport \<Rightarrow> ''import'')"

definition generateEntityId :: "string \<Rightarrow> string \<Rightarrow> string option \<Rightarrow> nat option \<Rightarrow> string" where
  "generateEntityId filePath entityTy entityName startLn =
     (let parts = [filePath, entityTy];
          parts = (case entityName of Some nm \<Rightarrow> if nm \<noteq> [] then parts @ [nm] else parts
                   | None \<Rightarrow> parts);
          parts = (case startLn of Some l \<Rightarrow> parts @ [String l] | None \<Rightarrow> parts)
      in join '':'' parts)"

definition mapEntityType :: "CodeEntityType \<Rightarrow> EntityType option" where
  "mapEntityType t =
     (case t of CFunction \<Rightarrow> Some EFunction | CClass \<Rightarrow> Some EClass | CMethod \<Rightarrow> Some EMethod
      | _ \<Rightarrow> None)"

text \<open>
  \<open>convertCodeEntity\<close>. The semantic extractor with its cache (encoder/semantic.ts,
  encoder/cache.ts) is not among the sources and is the parameter \<open>sem\<close>.
\<close>

definition convertCodeEntity ::
  "(EntityInput \<Rightarrow> SemanticFeature) \<Rightarrow> CodeEntity \<Rightarrow> string \<Rightarrow> string \<Rightarrow> string option
     \<Rightarrow> ExtractedEntity option" where
  "convertCodeEntity sem entity filePath entityId fileSourceCode =
     (case mapEntityType (ce_type entity) of
        None \<Rightarrow> None
      | Some entityTy \<Rightarrow>
          let entitySourceCode =
                (case fileSourceCode of
                   None \<Rightarrow> None
                 | Some src \<Rightarrow>
                     if src \<noteq> [] then
                       Some (join [CHR 0x0A]
                              (slice (split (CHR 0x0A) src) (int (ce_startLine entity) - 1)
                                     (int (ce_endLine entity))))
                     else None);
              feature = sem \<lparr>ei_type = codeEntityTypeString (ce_type entity),
                              ei_name = ce_name entity, ei_filePath = filePath,
                              ei_parent = ce_parent entity, ei_sourceCode = entitySourceCode\<rparr>
          in Some \<lparr>ee_id = entityId, ee_feature = feature,
                   ee_metadata = \<lparr>em_entityType = entityTy, em_path = filePath,
                                   em_startLine = Some (ce_startLine entity),
                                   em_endLine = Some (ce_endLine entity)\<rparr>,
                   ee_sourceCode = entitySourceCode\<rparr>)"

text \<open>
  \<open>extractEntities\<close>, from the point where the file has been read and parsed:
  \<open>relativePath\<close> is \<open>path.relative(repoPath, file)\<close>, \<open>baseName\<close> is
  \<open>path.basename(relativePath, path.extname(relativePath))\<close>, \<open>sourceText\<close> the text read
  (\<open>None\<close> when reading failed) and \<open>parsed\<close> the entities of the parse result.
\<close>

definition extractEntities ::
  "(EntityInput \<Rightarrow> SemanticFeature) \<Rightarrow> string \<Rightarrow> string \<Rightarrow> string option \<Rightarrow> CodeEntity list
     \<Rightarrow> ExtractedEntity list" where
  "extractEntities sem relativePath baseName sourceText parsed =
     (let fileId = generateEntityId relativePath ''file'' None None;
          fileFeature = sem \<lparr>ei_type = ''file'', ei_name = baseName, ei_filePath = relativePath,
                              ei_parent = None, ei_sourceCode = None\<rparr>;
          fileEntity = \<lparr>ee_id = fileId, ee_feature = fileFeature,
                        ee_metadata = \<lparr>em_entityType = EFile, em_path = relativePath,
                                        em_startLine = None, em_endLine = None\<rparr>,
                        ee_sourceCode = None\<rparr>
      in fileEntity #
         List.map_filter
           (\<lambda>entity. convertCodeEntity sem entity relativePath
              (generateEntityId relativePath (codeEntityTypeString (ce_type entity))
                 (Some (ce_name entity)) (Some (ce_startLine entity)))
              sourceText)
           parsed)"

text \<open>The two functions of scenario 1 of the specification, as the parser reports them.\<close>

definition exParsed :: "CodeEntity list" where
  "exParsed =
     [\<lparr>ce_type = CFunction, ce_name = ''greet'', ce_startLine = 1, ce_endLine = 3, ce_parent = None\<rparr>,
      \<lparr>ce_type = CFunction, ce_name = ''add'', ce_startLine = 12, ce_endLine = 14, ce_parent = None\<rparr>]"

definition exSem :: "EntityInput \<Rightarrow> SemanticFeature" where
  "exSem i = exFeature (ei_name i)"

section \<open>Search (graph/rpg.ts, tools/search.ts)\<close>

text \<open>\<open>String.prototype.toLowerCase\<close> on the letters A to Z and \<open>String.prototype.includes\<close> (\<open>str_includes\<close>).\<close>

definition toLowerChar :: "char \<Rightarrow> char" where
  "toLowerChar c =
     (case map_of (zip ''ABCDEFGHIJKLMNOPQRSTUVWXYZ'' ''abcdefghijklmnopqrstuvwxyz'') c of
        Some l \<Rightarrow> l | None \<Rightarrow> c)"

definition toLowerCase :: "string \<Rightarrow> string" where
  "toLowerCase s = map toLowerChar s"

definition startsWith :: "string \<Rightarrow> string \<Rightarrow> bool" where
  "startsWith s p \<longleftrightarrow> take (length p) s = p"

fun str_includes :: "string \<Rightarrow> string \<Rightarrow> bool" where
  "str_includes [] q \<longleftrightarrow> q = []"
| "str_includes (x # xs) q \<longleftrightarrow> startsWith (x # xs) q \<or> str_includes xs q"

definition searchByFeature :: "RPG \<Rightarrow> string \<Rightarrow> Node list" where
  "searchByFeature g query =
     (let queryLower = toLowerCase query
      in filter (\<lambda>node.
           let desc = toLowerCase (description (feature node));
               kws = (case feature_keywords (feature node) of
                        Some ks \<Rightarrow> map toLowerCase ks | None \<Rightarrow> []);
               subs = (case subFeatures (feature node) of
                         Some fs \<Rightarrow> map toLowerCase fs | None \<Rightarrow> [])
           in str_includes desc queryLower
              \<or> list_ex (\<lambda>k. str_includes k queryLower) kws
              \<or> list_ex (\<lambda>f. str_includes f queryLower) subs)
         (getNodes g))"

text \<open>
  \<open>searchByPath\<close> builds \<open>new RegExp(pattern.replace(/\*/g, '.*'))\<close> and keeps the LowLevel
  nodes whose \<open>metadata.path\<close> is a non-empty string that the expression tests true on.
  The regular-expression engine is the parameter \<open>rx\<close>: \<open>rx src\<close> is \<open>None\<close> when
  \<open>new RegExp(src)\<close> throws a SyntaxError, and otherwise the predicate \<open>test\<close> of the
  expression.
\<close>

datatype search_error = InvalidRegExp string

definition globToRegExpSource :: "string \<Rightarrow> string" where
  "globToRegExpSource pattern = concat (map (\<lambda>c. if c = CHR ''*'' then ''.*'' else [c]) pattern)"

definition searchByPath ::
  "(string \<Rightarrow> (string \<Rightarrow> bool) option) \<Rightarrow> RPG \<Rightarrow> string \<Rightarrow> search_error + Node list" where
  "searchByPath rx g pattern =
     (case rx (globToRegExpSource pattern) of
        None \<Rightarrow> Inl (InvalidRegExp (globToRegExpSource pattern))
      | Some test \<Rightarrow>
          Inr (filter (\<lambda>node.
                 case metadata node of
                   None \<Rightarrow> False
                 | Some m \<Rightarrow> (case path m of None \<Rightarrow> False | Some p \<Rightarrow> p \<noteq> [] \<and> test p))
               (getLowLevelNodes g)))"

text \<open>
  An engine for the examples: it is \<open>RegExp\<close> on the sources that consist of ordinary
  characters and \<open>.*\<close> only (no other metacharacter), where \<open>test\<close> looks for a match
  starting anywhere and \<open>.\<close> matches every character but a line terminator.
\<close>

datatype rx_item = Lit char | AnyStar

fun rxParse :: "string \<Rightarrow> rx_item list" where
  "rxParse [] = []"
| "rxParse [c] = [Lit c]"
| "rxParse (c # d # r) =
     (if c = CHR ''.'' \<and> d = CHR ''*'' then AnyStar # rxParse r else Lit c # rxParse (d # r))"

fun rxMatch :: "rx_item list \<Rightarrow> string \<Rightarrow> bool" where
  "rxMatch [] s \<longleftrightarrow> True"
| "rxMatch (Lit c # r) [] \<longleftrightarrow> False"
| "rxMatch (Lit c # r) (x # xs) \<longleftrightarrow> x = c \<and> rxMatch r xs"
| "rxMatch (AnyStar # r) [] \<longleftrightarrow> rxMatch r []"
| "rxMatch (AnyStar # r) (x # xs) \<longleftrightarrow>
     rxMatch r (x # xs) \<or> (x \<noteq> CHR 0x0A \<and> x \<noteq> CHR 0x0D \<and> rxMatch (AnyStar # r) xs)"

fun rxSearch :: "rx_item list \<Rightarrow> string \<Rightarrow> bool" where
  "rxSearch r [] \<longleftrightarrow> rxMatch r []"
| "rxSearch r (x # xs) \<longleftrightarrow> rxMatch r (x # xs) \<or> rxSearch r xs"

definition simpleRegExp :: "string \<Rightarrow> (string \<Rightarrow> bool) option" where
  "simpleRegExp src = Some (rxSearch (rxParse src))"

text \<open>\<open>SearchNode.query\<close>. The \<open>Map\<close> built from the (id, node) entries keeps each key at the
  place of its first insertion, with the value set last: \<open>AList.update\<close>.\<close>

datatype SearchMode = Features | Snippets | Auto

record SearchOptions =
  so_mode :: SearchMode
  featureTerms :: "string list option"
  searchTerms :: "string list option"
  searchScopes :: "string list option"
  filePattern :: "string option"
  lineRange :: "(int \<times> int) option"

record SearchResult =
  sr_nodes :: "Node list"
  totalMatches :: nat
  sr_mode :: SearchMode

definition newMap :: "('k \<times> 'v) list \<Rightarrow> ('k \<times> 'v) list" where
  "newMap entries = foldl (\<lambda>m (k, v). AList.update k v m) [] entries"

definition query ::
  "(string \<Rightarrow> (string \<Rightarrow> bool) option) \<Rightarrow> RPG \<Rightarrow> SearchOptions \<Rightarrow> search_error + SearchResult" where
  "query rx g options =
     (let results =
            (if so_mode options = Features \<or> so_mode options = Auto then
               (case featureTerms options of
                  Some terms \<Rightarrow> concat (map (searchByFeature g) terms)
                | None \<Rightarrow> [])
             else []);
          snippets =
            (if so_mode options = Snippets \<or> so_mode options = Auto then
               (case filePattern options of
                  Some pat \<Rightarrow> if pat \<noteq> [] then searchByPath rx g pat else Inr []
                | None \<Rightarrow> Inr [])
             else Inr [])
      in case snippets of
           Inl e \<Rightarrow> Inl e
         | Inr matches \<Rightarrow>
             let uniqueNodes = map snd (newMap (map (\<lambda>n. (node_id n, n)) (results @ matches)))
             in Inr \<lparr>sr_nodes = uniqueNodes, totalMatches = length uniqueNodes,
                     sr_mode = so_mode options\<rparr>)"

text \<open>The ids of a list of nodes in the order in which each id is seen first.\<close>

definition firstSeen :: "'a list \<Rightarrow> 'a list" where
  "firstSeen xs = rev (remdups (rev xs))"

definition exGraphSearch :: RPG where
  "exGraphSearch = snd (addNode (exLow ''g'' ''src/b.ts'')
                     (snd (addNode ((exLow ''f'' ''src/a.ts'')
                            \<lparr>feature := exFeature ''handle authentication''\<rparr>) (newRPG exConfig))))"

definition exAutoOptions :: SearchOptions where
  "exAutoOptions = \<lparr>so_mode = Auto, featureTerms = Some [''authentication''], searchTerms = None,
                     searchScopes = None, filePattern = Some ''src/*'', lineRange = None\<rparr>"

section \<open>Artifact grounding (encoder/grounding.ts)\<close>

text \<open>
  \<open>path.dirname\<close> of node:path (POSIX): the loop runs from the last character down to
  index 1 and finds the last slash that is followed by a character that is not a slash.
\<close>

fun dirnameLoop :: "string \<Rightarrow> nat \<Rightarrow> bool \<Rightarrow> nat option" where
  "dirnameLoop p 0 matchedSlash = None"
| "dirnameLoop p (Suc k) matchedSlash =
     (if p ! Suc k = CHR ''/'' then
        (if \<not> matchedSlash then Some (Suc k) else dirnameLoop p k matchedSlash)
      else dirnameLoop p k False)"

definition dirname :: "string \<Rightarrow> string" where
  "dirname p =
     (if p = [] then ''.''
      else let hasRoot = (hd p = CHR ''/'')
           in case dirnameLoop p (length p - 1) True of
                None \<Rightarrow> if hasRoot then ''/'' else ''.''
              | Some e \<Rightarrow> if hasRoot \<and> e = 1 then ''//'' else take e p)"

text \<open>
  \<open>TrieNode\<close>: the children are a \<open>Map\<close>, kept in insertion order. \<open>insert\<close> (\<open>trie_insert\<close>) walks the
  segments of the path, creating the children that are missing, and marks the last node.
\<close>

datatype TrieNode = TrieNode (isTerminal: bool) (children: "(string \<times> TrieNode) list")

definition isBranching :: "TrieNode \<Rightarrow> bool" where
  "isBranching n \<longleftrightarrow> length (children n) > 1"

fun insertSegments :: "string list \<Rightarrow> TrieNode \<Rightarrow> TrieNode" where
  "insertSegments [] (TrieNode t cs) = TrieNode True cs"
| "insertSegments (seg # segs) (TrieNode t cs) =
     (case map_of cs seg of
        None \<Rightarrow> TrieNode t (cs @ [(seg, insertSegments segs (TrieNode False []))])
      | Some child \<Rightarrow> TrieNode t (AList.update seg (insertSegments segs child) cs))"

definition trie_insert :: "string \<Rightarrow> TrieNode \<Rightarrow> TrieNode" where
  "trie_insert dirPath root =
     insertSegments (filter (\<lambda>s. length s > 0) (split (CHR ''/'') dirPath)) root"

text \<open>
  \<open>postOrder\<close> mutates the node it consolidates (\<open>children.clear()\<close>, \<open>isTerminal = true\<close>)
  and the array \<open>results\<close>; the model returns the node and the array after the call.
\<close>

fun postOrder :: "TrieNode \<Rightarrow> string list \<Rightarrow> string list \<Rightarrow> TrieNode \<times> string list"
  and postOrderChildren ::
    "(string \<times> TrieNode) list \<Rightarrow> string list \<Rightarrow> string list
       \<Rightarrow> (string \<times> TrieNode) list \<times> string list" where
  "postOrder (TrieNode t cs) pathSegments results =
     (case postOrderChildren cs pathSegments results of
        (cs1, results1) \<Rightarrow>
          if length pathSegments = 0 then (TrieNode t cs1, results1)
          else if isBranching (TrieNode t cs1) \<or> t then
            let currentPath = join ''/'' pathSegments;
                prefix = currentPath @ ''/''
            in (TrieNode True [],
                filter (\<lambda>r. \<not> startsWith r prefix) results1 @ [currentPath])
          else (TrieNode t cs1, results1))"
| "postOrderChildren [] pathSegments results = ([], results)"
| "postOrderChildren ((segment, child) # rest) pathSegments results =
     (case postOrder child (pathSegments @ [segment]) results of
        (child1, results1) \<Rightarrow>
          (case postOrderChildren rest pathSegments results1 of
             (rest1, results2) \<Rightarrow> ((segment, child1) # rest1, results2)))"

text \<open>\<open>computeLCA\<close>; the \<open>Set\<close> of directories is the list of its elements in insertion
  order.\<close>

definition computeLCA :: "string list \<Rightarrow> string list" where
  "computeLCA dirPaths =
     (if length dirPaths = 0 then []
      else if length dirPaths = 1 then dirPaths
      else let trie = foldl (\<lambda>t dir. trie_insert dir t) (TrieNode False []) dirPaths
           in snd (postOrder trie [] []))"

definition setAdd :: "'a list \<Rightarrow> 'a \<Rightarrow> 'a list" where
  "setAdd s x = (if x \<in> set s then s else s @ [x])"

text \<open>
  \<open>ArtifactGrounder.propagate\<close> and \<open>ground\<close>. The recursion follows the Functional edges
  and does not return on a graph where they form a cycle, so the model counts the depth
  of the calls down from \<open>fuel\<close> and returns \<open>None\<close> when it is used up. The node read at
  the start of a call is the node that is updated at its end: no call in between touches
  it unless the recursion comes back to the same id, in which case it does not return.
\<close>

definition groundedMetadata :: "Node \<Rightarrow> string \<Rightarrow> (string list) option \<Rightarrow> StructuralMetadata" where
  "groundedMetadata node p allPaths =
     (let old = metadata node;
          ex = (case allPaths of
                  None \<Rightarrow> (case old of None \<Rightarrow> None | Some m \<Rightarrow> extra m)
                | Some ps \<Rightarrow>
                    Some (AList.update ''paths'' (JStrings ps)
                           (case old of None \<Rightarrow> []
                            | Some m \<Rightarrow> (case extra m of None \<Rightarrow> [] | Some e \<Rightarrow> e))))
      in \<lparr>entityType = EModule, path = Some p,
          qualifiedName = (case old of None \<Rightarrow> None | Some m \<Rightarrow> qualifiedName m),
          language = (case old of None \<Rightarrow> None | Some m \<Rightarrow> language m),
          startLine = (case old of None \<Rightarrow> None | Some m \<Rightarrow> startLine m),
          endLine = (case old of None \<Rightarrow> None | Some m \<Rightarrow> endLine m),
          extra = ex\<rparr>)"

definition metadataUpdate :: "StructuralMetadata \<Rightarrow> PartialNode" where
  "metadataUpdate m = \<lparr>p_id = None, p_type = None, p_feature = None, p_metadata = Some m,
                       p_directoryPath = None, p_sourceCode = None\<rparr>"

fun propagate :: "nat \<Rightarrow> RPG \<Rightarrow> string \<Rightarrow> (RPG \<times> string list) option"
  and propagateChildren ::
    "nat \<Rightarrow> RPG \<Rightarrow> Node list \<Rightarrow> string list \<Rightarrow> (RPG \<times> string list) option" where
  "propagate 0 g nodeId = None"
| "propagate (Suc fuel) g nodeId =
     (case getNode g nodeId of
        None \<Rightarrow> Some (g, [])
      | Some node \<Rightarrow>
          if isLowLevelNode node then
            (case metadata node of
               None \<Rightarrow> Some (g, [])
             | Some m \<Rightarrow>
                 (case path m of
                    None \<Rightarrow> Some (g, [])
                  | Some filePath \<Rightarrow>
                      if filePath = [] then Some (g, []) else Some (g, [dirname filePath])))
          else
            (case propagateChildren fuel g (getChildren g nodeId) [] of
               None \<Rightarrow> None
             | Some (g1, dirSet) \<Rightarrow>
                 if isHighLevelNode node \<and> length dirSet > 0 then
                   (let lcaPaths = computeLCA dirSet
                    in if length lcaPaths = 1 then
                         Some (snd (updateNode nodeId
                                 (metadataUpdate (groundedMetadata node (lcaPaths ! 0) None)) g1),
                               dirSet)
                       else if length lcaPaths > 1 then
                         (let sortedPaths = sort lcaPaths
                          in Some (snd (updateNode nodeId
                                     (metadataUpdate
                                        (groundedMetadata node (sortedPaths ! 0) (Some sortedPaths))) g1),
                                   dirSet))
                       else Some (g1, dirSet))
                 else Some (g1, dirSet)))"
| "propagateChildren fuel g [] dirSet = Some (g, dirSet)"
| "propagateChildren fuel g (child # rest) dirSet =
     (case propagate fuel g (node_id child) of
        None \<Rightarrow> None
      | Some (g1, childDirs) \<Rightarrow> propagateChildren fuel g1 rest (foldl setAdd dirSet childDirs))"

fun groundLoop :: "nat \<Rightarrow> RPG \<Rightarrow> Node list \<Rightarrow> RPG option" where
  "groundLoop fuel g [] = Some g"
| "groundLoop fuel g (node # rest) =
     (case getParent g (node_id node) of
        None \<Rightarrow>
          (case propagate fuel g (node_id node) of
             None \<Rightarrow> None
           | Some (g1, dirs) \<Rightarrow> groundLoop fuel g1 rest)
      | Some parent \<Rightarrow> groundLoop fuel g rest)"

definition ground :: "nat \<Rightarrow> RPG \<Rightarrow> RPG option" where
  "ground fuel g = groundLoop fuel g (getHighLevelNodes g)"

text \<open>The graph of the grounding test "findable via searchByPath using extra.paths".\<close>

definition exFile :: "string \<Rightarrow> Node" where
  "exFile p = \<lparr>node_id = p @ '':file'', node_type = LowLevel, feature = exFeature p,
       metadata = Some \<lparr>entityType = EFile, path = Some p, qualifiedName = None, language = None,
                        startLine = None, endLine = None, extra = None\<rparr>,
       directoryPath = None, sourceCode = None\<rparr>"

definition exCrossCutting :: RPG where
  "exCrossCutting =
     snd (addFunctionalEdge ''domain:CrossCutting'' ''tests/utils/helper.test.ts:file'' None None
     (snd (addFunctionalEdge ''domain:CrossCutting'' ''src/utils/helper.ts:file'' None None
     (snd (addNode (exFile ''tests/utils/helper.test.ts'')
     (snd (addNode (exFile ''src/utils/helper.ts'')
     (snd (addNode (exHigh ''domain:CrossCutting'') (newRPG exConfig))))))))))"

definition exGroundedMetadata :: StructuralMetadata where
  "exGroundedMetadata =
     \<lparr>entityType = EModule, path = Some ''src/utils'', qualifiedName = None, language = None,
      startLine = None, endLine = None,
      extra = Some [(''paths'', JStrings [''src/utils'', ''tests/utils''])]\<rparr>"

section \<open>Traversal (tools/explore.ts)\<close>

datatype ExploreEdgeType = ExFunctional | ExDependency | ExBoth

datatype Direction = Out | In | Both

record ExploreOptions =
  startNode :: string
  edgeType :: ExploreEdgeType
  maxDepth :: "int option"
  direction :: "Direction option"

record ExploreResult =
  er_nodes :: "Node list"
  er_edges :: "(string \<times> string \<times> EdgeType) list"
  er_maxDepthReached :: int

text \<open>
  The variables the closure \<open>explore\<close> updates: the set \<open>visited\<close> (in insertion order),
  the arrays \<open>nodes\<close> and \<open>edges\<close>, and \<open>maxDepthReached\<close>. The field \<open>visits\<close> is an
  auxiliary variable that the code does not have and the model never reads: it records,
  for every node pushed, the id and the depth of the call that pushed it, so that "the
  depth actually reached" can be stated.
\<close>

record ExploreState =
  visited :: "string list"
  st_nodes :: "Node list"
  st_edges :: "(string \<times> string \<times> EdgeType) list"
  maxDepthReached :: int
  visits :: "(string \<times> int) list"

definition getEdgeTypes :: "ExploreEdgeType \<Rightarrow> EdgeType list" where
  "getEdgeTypes t =
     (if t = ExBoth then [Functional, Dependency]
      else [if t = ExFunctional then Functional else Dependency])"

definition pushEdge :: "Edge \<Rightarrow> ExploreState \<Rightarrow> ExploreState" where
  "pushEdge e st = st\<lparr>st_edges := st_edges st @ [(source e, target e, edge_type e)]\<rparr>"

function explore ::
  "RPG \<Rightarrow> ExploreEdgeType \<Rightarrow> Direction \<Rightarrow> int \<Rightarrow> string \<Rightarrow> int \<Rightarrow> ExploreState \<Rightarrow> ExploreState" where
  "explore g ety dir maxD nodeId depth st =
     (if depth > maxD \<or> nodeId \<in> set (visited st) then st
      else
        let st1 = st\<lparr>visited := visited st @ [nodeId]\<rparr>
        in case getNode g nodeId of
             None \<Rightarrow> st1
           | Some node \<Rightarrow>
               let st2 = st1\<lparr>st_nodes := st_nodes st1 @ [node],
                              maxDepthReached := max (maxDepthReached st1) depth,
                              visits := visits st1 @ [(nodeId, depth)]\<rparr>
               in fold (\<lambda>et s.
                    let s1 = (if dir = Out \<or> dir = Both then
                                fold (\<lambda>e s'. explore g ety dir maxD (target e) (depth + 1)
                                               (pushEdge e s'))
                                     (getOutEdges g nodeId (Some et)) s
                              else s)
                    in (if dir = In \<or> dir = Both then
                          fold (\<lambda>e s'. explore g ety dir maxD (source e) (depth + 1)
                                         (pushEdge e s'))
                               (getInEdges g nodeId (Some et)) s1
                        else s1))
                  (getEdgeTypes ety) st2)"
  by pat_completeness auto
termination
  by (relation "measure (\<lambda>(g, ety, dir, maxD, nodeId, depth, st). nat (maxD + 1 - depth))") auto

declare explore.simps [simp del]

definition initialState :: ExploreState where
  "initialState = \<lparr>visited = [], st_nodes = [], st_edges = [], maxDepthReached = 0, visits = []\<rparr>"

definition traverseState :: "RPG \<Rightarrow> ExploreOptions \<Rightarrow> ExploreState" where
  "traverseState g options =
     explore g (edgeType options)
       (case direction options of None \<Rightarrow> Out | Some d \<Rightarrow> d)
       (case maxDepth options of None \<Rightarrow> 3 | Some d \<Rightarrow> d)
       (startNode options) 0 initialState"

definition traverse :: "RPG \<Rightarrow> ExploreOptions \<Rightarrow> ExploreResult" where
  "traverse g options =
     (let st = traverseState g options
      in \<lparr>er_nodes = st_nodes st, er_edges = st_edges st,
          er_maxDepthReached = maxDepthReached st\<rparr>)"

text \<open>What holds of the variables of \<open>explore\<close> throughout a traversal.\<close>

definition exploreInv :: "RPG \<Rightarrow> int \<Rightarrow> ExploreState \<Rightarrow> bool" where
  "exploreInv g maxD st \<longleftrightarrow>
     distinct (map fst (visits st))
     \<and> fst ` set (visits st) \<subseteq> set (visited st)
     \<and> map Some (st_nodes st) = map (\<lambda>v. getNode g (fst v)) (visits st)
     \<and> maxDepthReached st = Max (insert 0 (snd ` set (visits st)))
     \<and> (\<forall>v \<in> set (visits st). 0 \<le> snd v \<and> snd v \<le> maxD)"

definition idsOk :: "RPG \<Rightarrow> bool" where
  "idsOk g \<longleftrightarrow> (\<forall>(k, n) \<in> set (nodes g). node_id n = k)"

definition exOptions :: "string \<Rightarrow> int option \<Rightarrow> ExploreOptions" where
  "exOptions i d = \<lparr>startNode = i, edgeType = ExFunctional, maxDepth = d, direction = None\<rparr>"

section \<open>What computeLCA computes\<close>

text \<open>
  The segments of a directory path as \<open>insert\<close> sees them, and the paths the trie stands
  for: \<open>terminals n\<close> are the segment lists that lead from \<open>n\<close> to a terminal node. A trie
  built by \<open>insert\<close> has distinct keys, segments that are non-empty and free of slashes,
  and a terminal node below every child (\<open>trieOk\<close>). \<open>lcaSegs n pre\<close> lists the nodes that
  \<open>postOrder\<close> reports below \<open>n\<close>, as segment lists: the topmost nodes that are branching or
  terminal.
\<close>

definition segments :: "string \<Rightarrow> string list" where
  "segments p = filter (\<lambda>s. length s > 0) (split (CHR ''/'') p)"

definition goodSeg :: "string \<Rightarrow> bool" where
  "goodSeg s \<longleftrightarrow> s \<noteq> [] \<and> CHR ''/'' \<notin> set s"

fun terminals :: "TrieNode \<Rightarrow> string list set"
  and terminalsCh :: "(string \<times> TrieNode) list \<Rightarrow> string list set" where
  "terminals (TrieNode t cs) = (if t then {[]} else {}) \<union> terminalsCh cs"
| "terminalsCh [] = {}"
| "terminalsCh ((s, c) # rest) = (#) s ` terminals c \<union> terminalsCh rest"

fun trieOk :: "TrieNode \<Rightarrow> bool"
  and childrenOk :: "(string \<times> TrieNode) list \<Rightarrow> bool" where
  "trieOk (TrieNode t cs) \<longleftrightarrow> distinct (map fst cs) \<and> childrenOk cs"
| "childrenOk [] \<longleftrightarrow> True"
| "childrenOk ((s, c) # rest) \<longleftrightarrow> goodSeg s \<and> trieOk c \<and> terminals c \<noteq> {} \<and> childrenOk rest"

fun lcaSegs :: "TrieNode \<Rightarrow> string list \<Rightarrow> string list list"
  and lcaCh :: "(string \<times> TrieNode) list \<Rightarrow> string list \<Rightarrow> string list list" where
  "lcaSegs (TrieNode t cs) pre =
     (if pre \<noteq> [] \<and> (length cs > 1 \<or> t) then [pre] else lcaCh cs pre)"
| "lcaCh [] pre = []"
| "lcaCh ((s, c) # rest) pre = lcaSegs c (pre @ [s]) @ lcaCh rest pre"

text \<open>
  A node of the trie, named by its segment list \<open>p\<close>, is marked when it is terminal or
  branching; in terms of the set \<open>T\<close> of inserted paths: \<open>p\<close> is in \<open>T\<close>, or two paths of \<open>T\<close>
  continue \<open>p\<close> with different segments. The paths reported are the marked nodes other
  than the root that have no marked node other than the root above them.
\<close>

definition marked :: "string list set \<Rightarrow> string list \<Rightarrow> bool" where
  "marked T p \<longleftrightarrow>
     p \<in> T \<or> (\<exists>s1 q1 s2 q2. s1 \<noteq> s2 \<and> p @ s1 # q1 \<in> T \<and> p @ s2 # q2 \<in> T)"

definition topMarked :: "string list set \<Rightarrow> string list \<Rightarrow> bool" where
  "topMarked T p \<longleftrightarrow>
     p \<noteq> [] \<and> marked T p \<and> (\<forall>q. q \<noteq> [] \<and> strict_prefix q p \<longrightarrow> \<not> marked T q)"

definition exDirs :: "string list" where
  "exDirs = [''src/graph'', ''tests/encoder'']"

definition exDirsPermuted :: "string list" where
  "exDirsPermuted = [''tests/encoder'', ''src/graph'']"

section \<open>What grounding is to achieve\<close>

text \<open>
  \<open>covers g v d\<close>: \<open>d\<close> is the directory of a leaf descendant of the node with id \<open>v\<close> that
  carries a path. The descent follows the Functional edges and stops at the first
  LowLevel node on each branch, which is where \<open>propagate\<close> stops; a node without a
  (non-empty) path contributes nothing. \<open>below g v h\<close>: the descent from \<open>v\<close> passes \<open>h\<close>.
\<close>

inductive covers :: "RPG \<Rightarrow> string \<Rightarrow> string \<Rightarrow> bool" where
  covers_leaf:
    "getNode g v = Some n \<Longrightarrow> isLowLevelNode n \<Longrightarrow> metadata n = Some m \<Longrightarrow> path m = Some p
       \<Longrightarrow> p \<noteq> [] \<Longrightarrow> covers g v (dirname p)"
| covers_child:
    "getNode g v = Some n \<Longrightarrow> \<not> isLowLevelNode n \<Longrightarrow> c \<in> set (getChildren g v)
       \<Longrightarrow> covers g (node_id c) d \<Longrightarrow> covers g v d"

inductive below :: "RPG \<Rightarrow> string \<Rightarrow> string \<Rightarrow> bool" where
  below_self: "below g v v"
| below_child:
    "getNode g v = Some n \<Longrightarrow> \<not> isLowLevelNode n \<Longrightarrow> c \<in> set (getChildren g v)
       \<Longrightarrow> below g (node_id c) h \<Longrightarrow> below g v h"

text \<open>
  The hypotheses on the graph that is grounded: the hierarchy has no cycle (\<open>rank\<close>
  decreases from a node to its children), the parents of a HighLevel node are HighLevel
  nodes, and the paths of the LowLevel nodes are relative.
\<close>

definition acyclicBy :: "(string \<Rightarrow> nat) \<Rightarrow> RPG \<Rightarrow> bool" where
  "acyclicBy rank g \<longleftrightarrow>
     (\<forall>v n c. getNode g v = Some n \<and> \<not> isLowLevelNode n \<and> c \<in> set (getChildren g v)
        \<longrightarrow> rank (node_id c) < rank v)"

definition highAboveHigh :: "RPG \<Rightarrow> bool" where
  "highAboveHigh g \<longleftrightarrow>
     (\<forall>e p c. e \<in> set (getFunctionalEdges g) \<and> getNode g (source e) = Some p
        \<and> getNode g (target e) = Some c \<and> isHighLevelNode c \<longrightarrow> isHighLevelNode p)"

definition relativePaths :: "RPG \<Rightarrow> bool" where
  "relativePaths g \<longleftrightarrow>
     (\<forall>v n m p. getNode g v = Some n \<and> isLowLevelNode n \<and> metadata n = Some m \<and> path m = Some p
        \<and> p \<noteq> [] \<longrightarrow> hd p \<noteq> CHR ''/'')"

definition extraOf :: "StructuralMetadata option \<Rightarrow> (string \<times> jvalue) list" where
  "extraOf mo = (case mo of None \<Rightarrow> [] | Some m \<Rightarrow> (case extra m of None \<Rightarrow> [] | Some e \<Rightarrow> e))"

text \<open>
  The node that grounding leaves at \<open>h\<close>, from the node \<open>n0\<close> found there: the metadata
  computed from the LCA paths of the covered directories (taken in sorted order; the
  result does not depend on the order).
\<close>

definition groundedNode :: "RPG \<Rightarrow> string \<Rightarrow> Node \<Rightarrow> Node" where
  "groundedNode g h n0 =
     (let L = computeLCA (sorted_list_of_set {d. covers g h d})
      in n0\<lparr>metadata := Some (groundedMetadata n0 (hd (sort L))
                                (if length L > 1 then Some (sort L) else None))\<rparr>)"

definition groundInv :: "RPG \<Rightarrow> RPG \<Rightarrow> bool" where
  "groundInv g0 g \<longleftrightarrow>
     edges g = edges g0 \<and> map fst (nodes g) = map fst (nodes g0)
     \<and> (\<forall>h n0. getNode g0 h = Some n0 \<longrightarrow>
           getNode g h = Some n0 \<or> (isHighLevelNode n0 \<and> getNode g h = Some (groundedNode g0 h n0)))"

definition groundedAt :: "RPG \<Rightarrow> RPG \<Rightarrow> string \<Rightarrow> bool" where
  "groundedAt g0 g h \<longleftrightarrow> (\<exists>n0. getNode g0 h = Some n0 \<and> getNode g h = Some (groundedNode g0 h n0))"

definition exRank :: "string \<Rightarrow> nat" where
  "exRank v = (if v = ''domain:CrossCutting'' then 1 else 0)"

text \<open>
  \<open>propagated g0 g g' V\<close>: from the graph \<open>g\<close> reached while grounding \<open>g0\<close>, a run of
  \<open>propagate\<close> has led to \<open>g'\<close>; nothing but grounded metadata has changed, the nodes that
  were grounded stay so, and every HighLevel node below a node of \<open>V\<close> that covers a
  directory is grounded.
\<close>

definition propagated :: "RPG \<Rightarrow> RPG \<Rightarrow> RPG \<Rightarrow> string set \<Rightarrow> bool" where
  "propagated g0 g g' V \<longleftrightarrow>
     groundInv g0 g'
     \<and> (\<forall>h. groundedAt g0 g h \<longrightarrow> groundedAt g0 g' h)
     \<and> (\<forall>v \<in> V. \<forall>h n. below g0 v h \<longrightarrow> getNode g0 h = Some n \<longrightarrow> isHighLevelNode n
           \<longrightarrow> (\<exists>d. covers g0 h d) \<longrightarrow> groundedAt g0 g' h)"

text \<open>Two invariants of the edge list: each edge is stored under its key, and its endpoints are nodes.\<close>

definition keysOk :: "RPG \<Rightarrow> bool" where
  "keysOk g \<longleftrightarrow> (\<forall>(k, e) \<in> set (edges g). k = edgeKey e)"

definition endpointsOk :: "RPG \<Rightarrow> bool" where
  "endpointsOk g \<longleftrightarrow> (\<forall>(k, e) \<in> set (edges g). hasNode g (source e) \<and> hasNode g (target e))"

section \<open>Invariants of reachable graphs\<close>

lemma hasNode_addNode: "hasNode (snd (addNode n g)) i \<longleftrightarrow> hasNode g i \<or> i = node_id n"
  by (auto simp: addNode_def hasNode_def)

lemma hasNode_updateNode: "hasNode (snd (updateNode j u g)) i \<longleftrightarrow> hasNode g i"
  by (force simp: updateNode_def hasNode_def image_iff split: if_splits)

lemma hasNode_addEdge: "hasNode (snd (addEdge e g)) i \<longleftrightarrow> hasNode g i"
  by (simp add: addEdge_def hasNode_def)

lemma hasNode_removeNode: "hasNode (snd (removeNode j g)) i \<longleftrightarrow> hasNode g i \<and> (i = j \<longrightarrow> \<not> hasNode g j)"
  by (force simp: removeNode_def hasNode_def image_iff)

lemma reachable_keysOk: "reachable g \<Longrightarrow> keysOk g"
  by (induction rule: reachable.induct)
     (auto simp: keysOk_def newRPG_def addNode_def updateNode_def removeNode_def addEdge_def)

lemma reachable_distinct_edges: "reachable g \<Longrightarrow> distinct (map fst (edges g))"
  by (induction rule: reachable.induct)
     (auto simp: newRPG_def addNode_def updateNode_def removeNode_def addEdge_def distinct_map_filter)

lemma map_fst_update_attrs:
  "map fst (map (\<lambda>(k, n). if k = i then (k, f n) else (k, n)) xs) = map fst xs"
  by (induction xs) auto

lemma keys_updateNode: "map fst (nodes (snd (updateNode i u g))) = map fst (nodes g)"
  by (simp add: updateNode_def map_fst_update_attrs del: map_map)

lemma reachable_distinct_nodes: "reachable g \<Longrightarrow> distinct (map fst (nodes g))"
proof (induction rule: reachable.induct)
  case (reach_updateNode g i u)
  then show ?case by (simp only: keys_updateNode)
qed (auto simp: newRPG_def addNode_def removeNode_def addEdge_def hasNode_def distinct_map_filter)

lemma reachable_endpointsOk: "reachable g \<Longrightarrow> endpointsOk g"
proof (induction rule: reachable.induct)
  case (reach_new c)
  show ?case by (simp add: endpointsOk_def newRPG_def)
next
  case (reach_addNode g n)
  then show ?case
    unfolding endpointsOk_def by (auto simp: hasNode_addNode) (auto simp: addNode_def split: if_splits)
next
  case (reach_updateNode g i u)
  then show ?case
    unfolding endpointsOk_def by (auto simp: hasNode_updateNode) (auto simp: updateNode_def split: if_splits)
next
  case (reach_removeNode g i)
  then show ?case
    unfolding endpointsOk_def by (auto simp: hasNode_removeNode) (auto simp: removeNode_def split: if_splits)
next
  case (reach_addEdge g e)
  then show ?case
    unfolding endpointsOk_def by (auto simp: hasNode_addEdge) (auto simp: addEdge_def split: if_splits)
qed

lemma exGraphAB_eq:
  "exGraphAB = \<lparr>config = exConfig, nodes = [(''a'', exHigh ''a''), (''b'', exHigh ''b'')], edges = []\<rparr>"
  by (simp add: exGraphAB_def addNode_def newRPG_def hasNode_def exHigh_def)

lemma reachable_exGraphAB: "reachable exGraphAB"
  unfolding exGraphAB_def by (intro reachable.intros)

section \<open>Claims about the graph substrate\<close>

text \<open>
  C10. For an id that is not in the graph, the read operations return empty results and do
  not fail: \<open>getNode\<close> and \<open>getParent\<close> return undefined, \<open>getOutEdges\<close>, \<open>getInEdges\<close>,
  \<open>getChildren\<close>, \<open>getDependencies\<close> and \<open>getDependents\<close> return the empty list; the
  mutating operations \<open>updateNode\<close> and \<open>removeNode\<close> throw the not-found error and leave the
  graph as it was.
\<close>

theorem absent_id_reads_empty_writes_throw:
  assumes "\<not> hasNode g i"
  shows "getNode g i = None \<and> getOutEdges g i ty = [] \<and> getInEdges g i ty = []
       \<and> getChildren g i = [] \<and> getParent g i = None
       \<and> getDependencies g i = [] \<and> getDependents g i = []
       \<and> updateNode i u g = (Some (NodeNotFound i), g)
       \<and> removeNode i g = (Some (NodeNotFound i), g)"
  using assms
  by (simp add: getNode_def getOutEdges_def getInEdges_def getChildren_def getParent_def
      getDependencies_def getDependents_def updateNode_def removeNode_def)

theorem absent_id_reads_empty_writes_throw_witness:
  "\<not> hasNode exGraphAB ''zz''
   \<and> getNode exGraphAB ''zz'' = None \<and> getOutEdges exGraphAB ''zz'' (Some Functional) = []
   \<and> getInEdges exGraphAB ''zz'' None = []
   \<and> getChildren exGraphAB ''zz'' = [] \<and> getParent exGraphAB ''zz'' = None
   \<and> getDependencies exGraphAB ''zz'' = [] \<and> getDependents exGraphAB ''zz'' = []
   \<and> removeNode ''zz'' exGraphAB = (Some (NodeNotFound ''zz''), exGraphAB)"
proof -
  have h: "\<not> hasNode exGraphAB ''zz''"
    by (simp add: exGraphAB_eq hasNode_def)
  show ?thesis
    using h absent_id_reads_empty_writes_throw [OF h, of "Some Functional"]
      absent_id_reads_empty_writes_throw [OF h, of None]
    by simp
qed

lemma addEdge_twice_graph: "snd (addEdge e (snd (addEdge e g))) = snd (addEdge e g)"
  by (simp add: addEdge_def hasNode_def)

lemma addNode_twice_graph: "snd (addNode n (snd (addNode n g))) = snd (addNode n g)"
  by (simp add: addNode_def hasNode_def)

lemma addEdge_ok_iff:
  "fst (addEdge e g) = None \<longleftrightarrow>
     hasNode g (source e) \<and> hasNode g (target e) \<and> edgeKey e \<notin> fst ` set (edges g)"
  by (simp add: addEdge_def)

lemma sameIdentity_edgeKey: "sameIdentity e x \<Longrightarrow> edgeKey x = edgeKey e"
  by (simp add: sameIdentity_def edgeKey_def)

lemma no_sameIdentity_before:
  assumes "keysOk g" and "edgeKey e \<notin> fst ` set (edges g)"
  shows "filter (sameIdentity e) (getEdges g) = []"
proof -
  have "\<not> sameIdentity e x" if "x \<in> set (getEdges g)" for x
  proof
    assume "sameIdentity e x"
    then have k: "edgeKey x = edgeKey e" by (rule sameIdentity_edgeKey)
    from that obtain kx where "(kx, x) \<in> set (edges g)"
      by (auto simp: getEdges_def)
    with assms(1) have "(edgeKey x, x) \<in> set (edges g)"
      by (auto simp: keysOk_def)
    with k assms(2) show False by force
  qed
  then show ?thesis by (simp add: filter_empty_conv)
qed

text \<open>
  C5 (as the code has it). Repeating \<open>addEdge(e)\<close> or \<open>addNode(n)\<close> leaves the graph exactly
  as the first call left it, but the repeated call is not silent: when the first call
  succeeded, the second one throws (the edge key, or the node id, already exists). After a
  successful \<open>addEdge(e)\<close> on a reachable graph, and after repeating it, exactly one edge has
  the identity (source, target, type) of \<open>e\<close>.
\<close>

theorem repeated_write_throws_graph_unchanged:
  "snd (addEdge e (snd (addEdge e g))) = snd (addEdge e g)
   \<and> snd (addNode n (snd (addNode n g))) = snd (addNode n g)
   \<and> (fst (addEdge e g) = None \<longrightarrow>
        fst (addEdge e (snd (addEdge e g))) = Some (EdgeKeyExists (edgeKey e)))
   \<and> (fst (addNode n g) = None \<longrightarrow>
        fst (addNode n (snd (addNode n g))) = Some (NodeExists (node_id n)))
   \<and> (reachable g \<and> fst (addEdge e g) = None \<longrightarrow>
        length (filter (sameIdentity e) (getEdges (snd (addEdge e (snd (addEdge e g)))))) = 1)"
proof (intro conjI impI)
  show "snd (addEdge e (snd (addEdge e g))) = snd (addEdge e g)"
    by (rule addEdge_twice_graph)
  show "snd (addNode n (snd (addNode n g))) = snd (addNode n g)"
    by (rule addNode_twice_graph)
  show "fst (addEdge e (snd (addEdge e g))) = Some (EdgeKeyExists (edgeKey e))"
    if "fst (addEdge e g) = None"
    using that by (simp add: addEdge_def hasNode_def split: if_splits)
  show "fst (addNode n (snd (addNode n g))) = Some (NodeExists (node_id n))"
    if "fst (addNode n g) = None"
    using that by (simp add: addNode_def hasNode_def split: if_splits)
  show "length (filter (sameIdentity e) (getEdges (snd (addEdge e (snd (addEdge e g)))))) = 1"
    if h: "reachable g \<and> fst (addEdge e g) = None"
  proof -
    from h have ok: "hasNode g (source e)" "hasNode g (target e)"
      "edgeKey e \<notin> fst ` set (edges g)"
      by (simp_all add: addEdge_ok_iff)
    from h have "keysOk g" by (simp add: reachable_keysOk)
    then have none: "filter (sameIdentity e) (getEdges g) = []"
      using ok(3) by (rule no_sameIdentity_before)
    have "getEdges (snd (addEdge e g)) = getEdges g @ [e]"
      using ok by (simp add: addEdge_def getEdges_def)
    then show ?thesis
      using none by (simp add: addEdge_twice_graph sameIdentity_def)
  qed
qed

theorem repeated_write_throws_graph_unchanged_witness:
  "reachable exGraphAB \<and> fst (addEdge exEdgeAB exGraphAB) = None
   \<and> fst (addEdge exEdgeAB (snd (addEdge exEdgeAB exGraphAB))) = Some (EdgeKeyExists ''a->b:functional'')
   \<and> fst (addNode (exHigh ''c'') exGraphAB) = None
   \<and> fst (addNode (exHigh ''c'') (snd (addNode (exHigh ''c'') exGraphAB))) = Some (NodeExists ''c'')
   \<and> length (filter (sameIdentity exEdgeAB)
        (getEdges (snd (addEdge exEdgeAB (snd (addEdge exEdgeAB exGraphAB)))))) = 1"
proof -
  have a: "fst (addEdge exEdgeAB exGraphAB) = None"
    by (simp add: addEdge_ok_iff exGraphAB_eq hasNode_def exEdgeAB_def createFunctionalEdge_def)
  have b: "fst (addNode (exHigh ''c'') exGraphAB) = None"
    by (simp add: addNode_def exGraphAB_eq hasNode_def exHigh_def)
  have k: "edgeKey exEdgeAB = ''a->b:functional''"
    by (simp add: edgeKey_def exEdgeAB_def createFunctionalEdge_def edgeTypeString_def)
  have n: "node_id (exHigh ''c'') = ''c''"
    by (simp add: exHigh_def)
  show ?thesis
    using repeated_write_throws_graph_unchanged [of exEdgeAB exGraphAB "exHigh ''c''"]
      a b reachable_exGraphAB
    by (auto simp: k n)
qed

text \<open>
  The claim as stated ("does not fail") is false: the second \<open>addNode\<close> of the same node
  and the second \<open>addEdge\<close> of the same edge both throw.
\<close>

theorem repeated_write_fails_counterexample:
  "fst (addNode (exHigh ''a'') (snd (addNode (exHigh ''a'') (newRPG exConfig))))
     = Some (NodeExists ''a'')
   \<and> fst (addEdge exEdgeAB exGraphAB) = None
   \<and> fst (addEdge exEdgeAB (snd (addEdge exEdgeAB exGraphAB)))
     = Some (EdgeKeyExists ''a->b:functional'')"
  by (simp add: addNode_def addEdge_def newRPG_def hasNode_def exHigh_def exGraphAB_eq
      exEdgeAB_def createFunctionalEdge_def edgeKey_def edgeTypeString_def)

lemma distinct_map_factor:
  "distinct (map f xs) \<Longrightarrow> (\<And>x. x \<in> set xs \<Longrightarrow> f x = h (g x)) \<Longrightarrow> distinct (map g xs)"
proof (induction xs)
  case Nil
  then show ?case by simp
next
  case (Cons x xs)
  have "g x \<notin> g ` set xs"
  proof
    assume "g x \<in> g ` set xs"
    then obtain y where y: "y \<in> set xs" "g y = g x" by auto
    then have "f y = f x" using Cons.prems(2) [of x] Cons.prems(2) [of y] by simp
    with y(1) Cons.prems(1) show False by (force simp: image_iff)
  qed
  with Cons show ?case by simp
qed

lemma keysOk_keys: "keysOk g \<Longrightarrow> map fst (edges g) = map edgeKey (getEdges g)"
  by (auto simp: keysOk_def getEdges_def)

lemma reachable_distinct_functional:
  assumes "reachable g"
  shows "distinct (map endpoints (getFunctionalEdges g))"
proof -
  have "distinct (map edgeKey (getEdges g))"
    using reachable_distinct_edges [OF assms] keysOk_keys [OF reachable_keysOk [OF assms]]
    by simp
  then have "distinct (map edgeKey (getFunctionalEdges g))"
    by (simp add: getFunctionalEdges_def distinct_map_filter)
  moreover have "edgeKey x = (\<lambda>(s, t). s @ ''->'' @ t @ '':functional'') (endpoints x)"
    if "x \<in> set (getFunctionalEdges g)" for x
    using that
    by (simp add: getFunctionalEdges_def isFunctionalEdge_def edgeKey_def endpoints_def
        edgeTypeString_def)
  ultimately show ?thesis by (rule distinct_map_factor)
qed

lemma exGraphABC_eq:
  "exGraphABC = \<lparr>config = exConfig,
     nodes = [(''a'', exHigh ''a''), (''b'', exHigh ''b''), (''c'', exHigh ''c'')], edges = []\<rparr>"
  by (simp add: exGraphABC_def exGraphAB_eq addNode_def hasNode_def exHigh_def)

lemma exCycle_edges:
  "map endpoints (getFunctionalEdges exCycle) = [(''a'', ''b''), (''b'', ''a'')]"
  by (simp add: exCycle_def addFunctionalEdge_def addEdge_def exGraphAB_eq hasNode_def
      createFunctionalEdge_def edgeKey_def edgeTypeString_def getFunctionalEdges_def
      getEdges_def isFunctionalEdge_def endpoints_def)

lemma reachable_exCycle: "reachable exCycle"
  unfolding exCycle_def addFunctionalEdge_def
  by (intro reachable.intros reachable_exGraphAB)

lemma reachable_exTwoParents: "reachable exTwoParents"
  unfolding exTwoParents_def exGraphABC_def addFunctionalEdge_def
  by (intro reachable.intros reachable_exGraphAB)

text \<open>
  C4 (as the code has it). \<open>addEdge\<close>, and \<open>addFunctionalEdge\<close> through it, rejects an edge
  only when its source or its target is not a node of the graph or when the key
  source->target:type is already taken; there is no check of the ancestor chain. What every
  reachable graph does satisfy: each edge joins two existing nodes, and no two Functional
  edges have the same (source, target).
\<close>

theorem functional_edges_checked_by_key_only:
  assumes "reachable g"
  shows "(\<forall>e \<in> set (getEdges g). hasNode g (source e) \<and> hasNode g (target e))
       \<and> distinct (map endpoints (getFunctionalEdges g))
       \<and> (fst (addFunctionalEdge s t lv so g) = None \<longleftrightarrow>
            hasNode g s \<and> hasNode g t \<and> (s @ ''->'' @ t @ '':functional'') \<notin> fst ` set (edges g))"
proof (intro conjI)
  show "\<forall>e \<in> set (getEdges g). hasNode g (source e) \<and> hasNode g (target e)"
    using reachable_endpointsOk [OF assms] by (auto simp: endpointsOk_def getEdges_def)
  show "distinct (map endpoints (getFunctionalEdges g))"
    using assms by (rule reachable_distinct_functional)
  show "fst (addFunctionalEdge s t lv so g) = None \<longleftrightarrow>
          hasNode g s \<and> hasNode g t \<and> (s @ ''->'' @ t @ '':functional'') \<notin> fst ` set (edges g)"
    by (simp add: addFunctionalEdge_def addEdge_ok_iff createFunctionalEdge_def edgeKey_def
        edgeTypeString_def)
qed

theorem functional_edges_checked_by_key_only_witness:
  "reachable exCycle
   \<and> list_all (\<lambda>e. hasNode exCycle (source e) \<and> hasNode exCycle (target e)) (getEdges exCycle)
   \<and> distinct (map endpoints (getFunctionalEdges exCycle))
   \<and> fst (addFunctionalEdge ''a'' ''b'' None None exCycle) \<noteq> None"
proof -
  have "''a->b:functional'' \<in> fst ` set (edges exCycle)"
    by (simp add: exCycle_def addFunctionalEdge_def addEdge_def exGraphAB_eq hasNode_def
        createFunctionalEdge_def edgeKey_def edgeTypeString_def)
  then show ?thesis
    using functional_edges_checked_by_key_only [OF reachable_exCycle, of "''a''" "''b''" None None]
      reachable_exCycle
    by (simp add: list_all_iff)
qed

text \<open>
  The claim as stated is false on the code: in \<open>exCycle\<close> the edge b -> a is added although
  the ancestor chain of b already contains a, and the Functional edges then form the cycle
  a -> b -> a; in \<open>exTwoParents\<close> the node c has two incoming Functional edges. Both graphs
  are built by the public operations alone.
\<close>

theorem functional_forest_counterexample:
  "reachable exCycle
   \<and> fst (addFunctionalEdge ''b'' ''a'' None None
            (snd (addFunctionalEdge ''a'' ''b'' None None exGraphAB))) = None
   \<and> map endpoints (getFunctionalEdges exCycle) = [(''a'', ''b''), (''b'', ''a'')]
   \<and> reachable exTwoParents
   \<and> map endpoints (getInEdges exTwoParents ''c'' (Some Functional))
       = [(''a'', ''c''), (''b'', ''c'')]"
proof (intro conjI)
  show "reachable exCycle" by (rule reachable_exCycle)
  show "reachable exTwoParents" by (rule reachable_exTwoParents)
  show "fst (addFunctionalEdge ''b'' ''a'' None None
            (snd (addFunctionalEdge ''a'' ''b'' None None exGraphAB))) = None"
    by (simp add: addFunctionalEdge_def addEdge_def exGraphAB_eq hasNode_def
        createFunctionalEdge_def edgeKey_def edgeTypeString_def)
  show "map endpoints (getFunctionalEdges exCycle) = [(''a'', ''b''), (''b'', ''a'')]"
    by (rule exCycle_edges)
  show "map endpoints (getInEdges exTwoParents ''c'' (Some Functional))
       = [(''a'', ''c''), (''b'', ''c'')]"
    by (simp add: exTwoParents_def addFunctionalEdge_def addEdge_def exGraphABC_eq hasNode_def
        createFunctionalEdge_def edgeKey_def edgeTypeString_def getInEdges_def
        getEdges_def endpoints_def)
qed

lemma map_of_update_attrs:
  "map_of (map (\<lambda>(k, n). if k = i then (k, f n) else (k, n)) xs) j
     = (if j = i then map_option f (map_of xs i) else map_of xs j)"
  by (induction xs) auto

lemma getNode_updateNode:
  "getNode (snd (updateNode i u g)) j
     = (if j = i then map_option (\<lambda>n. mergeNodeAttributes n u) (getNode g i) else getNode g j)"
proof (cases "hasNode g i")
  case True
  then show ?thesis
    using hasNode_updateNode [of i u g j]
    by (simp add: getNode_def) (simp add: updateNode_def map_of_update_attrs)
next
  case False
  then show ?thesis by (simp add: updateNode_def getNode_def)
qed

lemma getNode_Some_hasNode: "getNode g i = Some n \<Longrightarrow> hasNode g i"
  by (simp add: getNode_def split: if_splits)

section \<open>Claim about updateNode\<close>

text \<open>
  C8 (as the code has it). For an existing node id, \<open>updateNode(id, partial)\<close> does not throw
  and merges one level deep only: every top-level field the partial names (\<open>id\<close>, \<open>type\<close>,
  \<open>feature\<close>, \<open>metadata\<close>, \<open>directoryPath\<close>, \<open>sourceCode\<close>) is replaced as a whole by the
  partial's value, every top-level field it does not name keeps its value; the other nodes
  and all edges are as before.
\<close>

theorem updateNode_replaces_top_level_fields:
  assumes "getNode g i = Some n"
  shows "fst (updateNode i u g) = None
       \<and> (\<exists>n'. getNode (snd (updateNode i u g)) i = Some n'
            \<and> node_id n' = (case p_id u of None \<Rightarrow> node_id n | Some v \<Rightarrow> v)
            \<and> node_type n' = (case p_type u of None \<Rightarrow> node_type n | Some v \<Rightarrow> v)
            \<and> feature n' = (case p_feature u of None \<Rightarrow> feature n | Some v \<Rightarrow> v)
            \<and> metadata n' = (case p_metadata u of None \<Rightarrow> metadata n | Some v \<Rightarrow> Some v)
            \<and> directoryPath n' = (case p_directoryPath u of None \<Rightarrow> directoryPath n | Some v \<Rightarrow> Some v)
            \<and> sourceCode n' = (case p_sourceCode u of None \<Rightarrow> sourceCode n | Some v \<Rightarrow> Some v))
       \<and> (\<forall>j. j \<noteq> i \<longrightarrow> getNode (snd (updateNode i u g)) j = getNode g j)
       \<and> edges (snd (updateNode i u g)) = edges g"
proof (intro conjI)
  have h: "hasNode g i" using assms by (rule getNode_Some_hasNode)
  show "fst (updateNode i u g) = None"
    using h by (simp add: updateNode_def)
  show "edges (snd (updateNode i u g)) = edges g"
    by (simp add: updateNode_def)
  show "\<forall>j. j \<noteq> i \<longrightarrow> getNode (snd (updateNode i u g)) j = getNode g j"
    by (simp add: getNode_updateNode)
  have "getNode (snd (updateNode i u g)) i = Some (mergeNodeAttributes n u)"
    using assms by (simp add: getNode_updateNode)
  then show "\<exists>n'. getNode (snd (updateNode i u g)) i = Some n'
            \<and> node_id n' = (case p_id u of None \<Rightarrow> node_id n | Some v \<Rightarrow> v)
            \<and> node_type n' = (case p_type u of None \<Rightarrow> node_type n | Some v \<Rightarrow> v)
            \<and> feature n' = (case p_feature u of None \<Rightarrow> feature n | Some v \<Rightarrow> v)
            \<and> metadata n' = (case p_metadata u of None \<Rightarrow> metadata n | Some v \<Rightarrow> Some v)
            \<and> directoryPath n' = (case p_directoryPath u of None \<Rightarrow> directoryPath n | Some v \<Rightarrow> Some v)
            \<and> sourceCode n' = (case p_sourceCode u of None \<Rightarrow> sourceCode n | Some v \<Rightarrow> Some v)"
    by (simp add: mergeNodeAttributes_def)
qed

lemma exGraphLow_eq:
  "exGraphLow = \<lparr>config = exConfig, nodes = [(''f'', exLow ''f'' ''src/a.ts'')], edges = []\<rparr>"
  by (simp add: exGraphLow_def addNode_def newRPG_def hasNode_def exLow_def)

lemma getNode_exGraphLow: "getNode exGraphLow ''f'' = Some (exLow ''f'' ''src/a.ts'')"
  by (simp add: exGraphLow_eq getNode_def hasNode_def)

theorem updateNode_replaces_top_level_fields_witness:
  "getNode exGraphLow ''f'' = Some (exLow ''f'' ''src/a.ts'')
   \<and> fst (updateNode ''f'' exUpdateFeature exGraphLow) = None
   \<and> (\<exists>n'. getNode (snd (updateNode ''f'' exUpdateFeature exGraphLow)) ''f'' = Some n'
        \<and> feature n' = \<lparr>description = ''render template'', feature_keywords = None,
                         subFeatures = None\<rparr>
        \<and> metadata n' = metadata (exLow ''f'' ''src/a.ts''))"
  using updateNode_replaces_top_level_fields [OF getNode_exGraphLow, of exUpdateFeature]
    getNode_exGraphLow
  by (auto simp: exUpdateFeature_def)

text \<open>
  The claim as stated is false on the code: an update that names \<open>feature\<close> with a new
  description only drops the keywords the node had, and an update that names \<open>metadata\<close>
  with one \<open>extra\<close> entry drops the path and the \<open>extra\<close> entry the node had.
\<close>

theorem updateNode_deep_merge_counterexample:
  "map_option (\<lambda>n. feature_keywords (feature n)) (getNode exGraphLow ''f'') = Some (Some [''parse''])
   \<and> map_option (\<lambda>n. feature_keywords (feature n))
        (getNode (snd (updateNode ''f'' exUpdateFeature exGraphLow)) ''f'') = Some None
   \<and> map_option (\<lambda>n. map_option extra (metadata n)) (getNode exGraphLow ''f'')
        = Some (Some (Some [(''owner'', JString ''x'')]))
   \<and> map_option (\<lambda>n. map_option extra (metadata n))
        (getNode (snd (updateNode ''f'' exUpdateMetadata exGraphLow)) ''f'')
        = Some (Some (Some [(''seen'', JBool True)]))"
  by (simp add: getNode_updateNode getNode_exGraphLow mergeNodeAttributes_def exLow_def
      exUpdateFeature_def exUpdateMetadata_def)

section \<open>Claim about entity ids\<close>

lemma generateEntityId_file: "generateEntityId p ''file'' None None = p @ '':file''"
  by (simp add: generateEntityId_def)

lemma generateEntityId_entity:
  "generateEntityId p t (Some nm) (Some l)
     = p @ '':'' @ t @ (if nm = [] then [] else '':'' @ nm) @ '':'' @ String l"
  by (simp add: generateEntityId_def Let_def)

lemma mapEntityType_Some:
  "mapEntityType t \<noteq> None \<longleftrightarrow> t = CFunction \<or> t = CClass \<or> t = CMethod"
  by (simp add: mapEntityType_def split: CodeEntityType.splits)

lemma map_filter_map_id:
  "map ee_id (List.map_filter (\<lambda>e. convertCodeEntity sem e p (f e) src) es)
     = map f (filter (\<lambda>e. ce_type e = CFunction \<or> ce_type e = CClass \<or> ce_type e = CMethod) es)"
proof (induction es)
  case Nil
  show ?case by (simp add: List.map_filter_simps)
next
  case (Cons e es)
  show ?case
  proof (cases "mapEntityType (ce_type e)")
    case None
    then have "\<not> (ce_type e = CFunction \<or> ce_type e = CClass \<or> ce_type e = CMethod)"
      using mapEntityType_Some [of "ce_type e"] by simp
    with None Cons show ?thesis
      by (simp add: List.map_filter_simps convertCodeEntity_def)
  next
    case (Some t)
    then have "ce_type e = CFunction \<or> ce_type e = CClass \<or> ce_type e = CMethod"
      using mapEntityType_Some [of "ce_type e"] by simp
    with Some Cons show ?thesis
      by (simp add: List.map_filter_simps convertCodeEntity_def Let_def)
  qed
qed

lemma extractEntities_ids:
  "map ee_id (extractEntities sem p base src parsed)
     = (p @ '':file'') #
       map (\<lambda>e. p @ '':'' @ codeEntityTypeString (ce_type e)
                  @ (if ce_name e = [] then [] else '':'' @ ce_name e)
                  @ '':'' @ String (ce_startLine e))
           (filter (\<lambda>e. ce_type e = CFunction \<or> ce_type e = CClass \<or> ce_type e = CMethod) parsed)"
  by (simp add: extractEntities_def Let_def map_filter_map_id generateEntityId_file
      generateEntityId_entity)

text \<open>
  C3 (as the code has it). For a file with relative path p, the first entity extracted (the
  LowLevel node of the file) has id p:file. Every parsed function, class or method, and
  nothing else, yields one further entity, in the parser's order, whose id is
  p:type:name:startLine: the name is the parser's plain name (left out with its colon when
  empty) and the id ends with the start line.
\<close>

theorem entity_ids_end_with_start_line:
  "map ee_id (extractEntities sem p base src parsed)
     = (p @ '':file'') #
       map (\<lambda>e. p @ '':'' @ codeEntityTypeString (ce_type e)
                  @ (if ce_name e = [] then [] else '':'' @ ce_name e)
                  @ '':'' @ String (ce_startLine e))
           (filter (\<lambda>e. ce_type e = CFunction \<or> ce_type e = CClass \<or> ce_type e = CMethod) parsed)"
  by (rule extractEntities_ids)

text \<open>
  The claim as stated is false on the code: for the file src/a.ts with the functions greet
  (line 1) and add (line 12) the entity ids carry the line numbers.
\<close>

theorem entity_ids_counterexample:
  "map ee_id (extractEntities exSem ''src/a.ts'' ''a'' None exParsed)
     = [''src/a.ts:file'', ''src/a.ts:function:greet:1'', ''src/a.ts:function:add:12'']"
  by (simp add: extractEntities_ids exParsed_def codeEntityTypeString_def digit_def String.simps)

section \<open>Claims about search\<close>

lemma remdups_drop_seen: "x \<in> set zs \<Longrightarrow> remdups (ys @ x # zs) = remdups (ys @ zs)"
  by (induction ys) auto

lemma keys_foldl_update:
  "distinct (map fst m) \<Longrightarrow>
   map fst (foldl (\<lambda>m (k, v). AList.update k v m) m es) = firstSeen (map fst m @ map fst es)"
proof (induction es arbitrary: m)
  case Nil
  then show ?case by (simp add: firstSeen_def distinct_remdups_id)
next
  case (Cons e es)
  obtain k v where e: "e = (k, v)" by (cases e)
  have d: "distinct (map fst (AList.update k v m))"
    using Cons.prems by (simp add: distinct_update)
  show ?case
  proof (cases "k \<in> fst ` set m")
    case True
    then have "map fst (AList.update k v m) = map fst m"
      by (simp add: update_keys)
    moreover have "firstSeen (map fst m @ k # map fst es) = firstSeen (map fst m @ map fst es)"
      using True by (simp add: firstSeen_def remdups_drop_seen)
    ultimately show ?thesis
      using Cons.IH [OF d] by (simp add: e)
  next
    case False
    then have "map fst (AList.update k v m) = map fst m @ [k]"
      by (simp add: update_keys)
    then show ?thesis
      using Cons.IH [OF d] by (simp add: e)
  qed
qed

lemma values_foldl_update:
  "set (foldl (\<lambda>m (k, v). AList.update k v m) m es) \<subseteq> set m \<union> set es"
proof (induction es arbitrary: m)
  case Nil
  show ?case by simp
next
  case (Cons e es)
  obtain k v where e: "e = (k, v)" by (cases e)
  have "set (AList.update k v m) \<subseteq> insert (k, v) (set m)"
    by (induction m) auto
  with Cons [of "AList.update k v m"] show ?case
    by (auto simp: e)
qed

lemma newMap_ids: "map node_id (map snd (newMap (map (\<lambda>n. (node_id n, n)) xs))) = firstSeen (map node_id xs)"
proof -
  let ?es = "map (\<lambda>n. (node_id n, n)) xs"
  have "set (newMap ?es) \<subseteq> set ?es"
    using values_foldl_update [of "[]" ?es] by (simp add: newMap_def)
  then have "\<forall>p \<in> set (newMap ?es). node_id (snd p) = fst p"
    by auto
  then have "map node_id (map snd (newMap ?es)) = map fst (newMap ?es)"
    by simp
  also have "\<dots> = firstSeen (map fst ?es)"
    using keys_foldl_update [of "[]" ?es] by (simp add: newMap_def)
  also have "map fst ?es = map node_id xs"
    by (simp add: comp_def)
  finally show ?thesis .
qed

lemma newMap_values: "set (map snd (newMap (map (\<lambda>n. (node_id n, n)) xs))) \<subseteq> set xs"
  using values_foldl_update [of "[]" "map (\<lambda>n. (node_id n, n)) xs"]
  by (auto simp: newMap_def)

text \<open>
  C2 (as the code has it). With mode \<open>auto\<close>, \<open>SearchNode.query\<close> runs the feature search for
  every term and then, whenever a non-empty \<open>filePattern\<close> is given, the snippet search
  (\<open>searchByPath\<close> on the pattern), whatever the feature search returned: the result is the
  feature hits followed by the snippet hits, deduplicated by node id in first-seen order.
\<close>

theorem query_auto_runs_both_searches:
  assumes "so_mode options = Auto"
    and "filePattern options = Some pat" and "pat \<noteq> []"
    and "searchByPath rx g pat = Inr ss"
    and "fs = (case featureTerms options of
                 Some terms \<Rightarrow> concat (map (searchByFeature g) terms) | None \<Rightarrow> [])"
  shows "\<exists>r. query rx g options = Inr r
           \<and> map node_id (sr_nodes r) = firstSeen (map node_id (fs @ ss))
           \<and> set (sr_nodes r) \<subseteq> set (fs @ ss)
           \<and> totalMatches r = length (sr_nodes r)
           \<and> sr_mode r = Auto"
proof -
  let ?u = "map snd (newMap (map (\<lambda>n. (node_id n, n)) (fs @ ss)))"
  have "query rx g options = Inr \<lparr>sr_nodes = ?u, totalMatches = length ?u, sr_mode = Auto\<rparr>"
    using assms by (simp add: query_def Let_def)
  moreover have "map node_id ?u = firstSeen (map node_id (fs @ ss))"
    by (rule newMap_ids)
  moreover have "set ?u \<subseteq> set (fs @ ss)"
    by (rule newMap_values)
  ultimately show ?thesis by simp
qed

lemma searchByFeature_ex: "map node_id (searchByFeature exGraphSearch ''authentication'') = [''f'']"
  by (simp add: searchByFeature_def exGraphSearch_def addNode_def newRPG_def hasNode_def
      exLow_def exFeature_def getNodes_def toLowerCase_def toLowerChar_def startsWith_def Let_def)

lemma searchByPath_ex:
  "map_sum id (map node_id) (searchByPath simpleRegExp exGraphSearch ''src/*'') = Inr [''f'', ''g'']"
  by (simp add: searchByPath_def simpleRegExp_def globToRegExpSource_def exGraphSearch_def
      addNode_def newRPG_def hasNode_def exLow_def exFeature_def getNodes_def getLowLevelNodes_def
      isLowLevelNode_def)

theorem query_auto_runs_both_searches_witness:
  "so_mode exAutoOptions = Auto \<and> filePattern exAutoOptions = Some ''src/*''
   \<and> (\<exists>ss r. searchByPath simpleRegExp exGraphSearch ''src/*'' = Inr ss
         \<and> query simpleRegExp exGraphSearch exAutoOptions = Inr r
         \<and> map node_id (sr_nodes r)
             = firstSeen (map node_id (searchByFeature exGraphSearch ''authentication'' @ ss)))"
proof -
  obtain ss where ss: "searchByPath simpleRegExp exGraphSearch ''src/*'' = Inr ss"
    by (simp add: searchByPath_def simpleRegExp_def)
  have m: "so_mode exAutoOptions = Auto" and p: "filePattern exAutoOptions = Some ''src/*''"
    and f: "searchByFeature exGraphSearch ''authentication''
            = (case featureTerms exAutoOptions of
                 Some terms \<Rightarrow> concat (map (searchByFeature exGraphSearch) terms) | None \<Rightarrow> [])"
    by (simp_all add: exAutoOptions_def)
  have ne: "''src/*'' \<noteq> []" by simp
  from query_auto_runs_both_searches [OF m p ne ss f] m p ss show ?thesis
    by blast
qed

text \<open>
  The claim as stated is false on the code: the feature search for "authentication" returns
  the node f, and the snippet search still runs and adds the node g to the result.
\<close>

theorem query_auto_staged_counterexample:
  "map node_id (searchByFeature exGraphSearch ''authentication'') = [''f'']
   \<and> map_sum id (\<lambda>r. map node_id (sr_nodes r)) (query simpleRegExp exGraphSearch exAutoOptions)
       = Inr [''f'', ''g'']"
proof -
  obtain ss where ss: "searchByPath simpleRegExp exGraphSearch ''src/*'' = Inr ss"
    by (simp add: searchByPath_def simpleRegExp_def)
  with searchByPath_ex have ids: "map node_id ss = [''f'', ''g'']" by simp
  let ?u = "map snd (newMap (map (\<lambda>n. (node_id n, n))
              (searchByFeature exGraphSearch ''authentication'' @ ss)))"
  have "query simpleRegExp exGraphSearch exAutoOptions
          = Inr \<lparr>sr_nodes = ?u, totalMatches = length ?u, sr_mode = Auto\<rparr>"
    using ss by (simp add: query_def Let_def exAutoOptions_def)
  moreover have "map node_id ?u = [''f'', ''g'']"
    using newMap_ids [of "searchByFeature exGraphSearch ''authentication'' @ ss"]
      searchByFeature_ex ids
    by (simp add: firstSeen_def)
  ultimately show ?thesis
    using searchByFeature_ex by simp
qed

lemma searchByPath_only_low_level:
  "searchByPath rx g pat = Inr ns \<Longrightarrow> n \<in> set ns \<Longrightarrow> isLowLevelNode n"
proof -
  assume "searchByPath rx g pat = Inr ns" and "n \<in> set ns"
  then have "n \<in> set (getLowLevelNodes g)"
    by (cases "rx (globToRegExpSource pat)") (auto simp: searchByPath_def)
  then show ?thesis by (simp add: getLowLevelNodes_def)
qed

lemma ground_exCrossCutting:
  "ground 2 exCrossCutting = Some (exCrossCutting\<lparr>nodes :=
     [(''domain:CrossCutting'', (exHigh ''domain:CrossCutting'')\<lparr>metadata := Some exGroundedMetadata\<rparr>),
      (''src/utils/helper.ts:file'', exFile ''src/utils/helper.ts''),
      (''tests/utils/helper.test.ts:file'', exFile ''tests/utils/helper.test.ts'')]\<rparr>)"
  by code_simp

text \<open>
  C1, on the code. Grounding the high-level node domain:CrossCutting over the files
  src/utils/helper.ts and tests/utils/helper.test.ts gives it \<open>metadata.path\<close> src/utils and
  \<open>metadata.extra.paths\<close> [src/utils, tests/utils]. \<open>searchByPath("tests/utils*")\<close> then
  returns the low-level test file only: the method filters \<open>getLowLevelNodes()\<close> and tests
  \<open>metadata.path\<close> alone, so the grounded high-level node is not returned.
\<close>

theorem searchByPath_misses_grounded_high_level:
  "\<exists>g. ground 2 exCrossCutting = Some g
     \<and> map_option metadata (getNode g ''domain:CrossCutting'') = Some (Some exGroundedMetadata)
     \<and> map_sum id (map node_id) (searchByPath simpleRegExp g ''tests/utils*'')
         = Inr [''tests/utils/helper.test.ts:file'']"
proof (intro exI conjI)
  show "ground 2 exCrossCutting = Some (exCrossCutting\<lparr>nodes :=
     [(''domain:CrossCutting'', (exHigh ''domain:CrossCutting'')\<lparr>metadata := Some exGroundedMetadata\<rparr>),
      (''src/utils/helper.ts:file'', exFile ''src/utils/helper.ts''),
      (''tests/utils/helper.test.ts:file'', exFile ''tests/utils/helper.test.ts'')]\<rparr>)"
    by (rule ground_exCrossCutting)
  show "map_option metadata (getNode (exCrossCutting\<lparr>nodes :=
     [(''domain:CrossCutting'', (exHigh ''domain:CrossCutting'')\<lparr>metadata := Some exGroundedMetadata\<rparr>),
      (''src/utils/helper.ts:file'', exFile ''src/utils/helper.ts''),
      (''tests/utils/helper.test.ts:file'', exFile ''tests/utils/helper.test.ts'')]\<rparr>)
       ''domain:CrossCutting'') = Some (Some exGroundedMetadata)"
    by (simp add: getNode_def hasNode_def)
  show "map_sum id (map node_id) (searchByPath simpleRegExp (exCrossCutting\<lparr>nodes :=
     [(''domain:CrossCutting'', (exHigh ''domain:CrossCutting'')\<lparr>metadata := Some exGroundedMetadata\<rparr>),
      (''src/utils/helper.ts:file'', exFile ''src/utils/helper.ts''),
      (''tests/utils/helper.test.ts:file'', exFile ''tests/utils/helper.test.ts'')]\<rparr>)
       ''tests/utils*'') = Inr [''tests/utils/helper.test.ts:file'']"
    by code_simp
qed

section \<open>Claim about traversal\<close>

lemma fold_preserves:
  assumes "P s" and "\<And>x s. x \<in> set xs \<Longrightarrow> P s \<Longrightarrow> P (f x s)"
  shows "P (fold f xs s)"
  using assms by (induction xs arbitrary: s) auto

lemma exploreInv_pushEdge: "exploreInv g maxD (pushEdge e st) = exploreInv g maxD st"
  by (simp add: exploreInv_def pushEdge_def)

lemma exploreInv_visit:
  assumes "exploreInv g maxD st" and "nodeId \<notin> set (visited st)"
  shows "exploreInv g maxD (st\<lparr>visited := visited st @ [nodeId]\<rparr>)"
  using assms by (auto simp: exploreInv_def)

lemma exploreInv_push:
  assumes inv: "exploreInv g maxD st" and new: "nodeId \<notin> set (visited st)"
    and node: "getNode g nodeId = Some node" and d: "0 \<le> depth" "depth \<le> maxD"
  shows "exploreInv g maxD
           (st\<lparr>visited := visited st @ [nodeId], st_nodes := st_nodes st @ [node],
               maxDepthReached := max (maxDepthReached st) depth,
               visits := visits st @ [(nodeId, depth)]\<rparr>)"
proof -
  let ?S = "snd ` set (visits st)"
  have fresh: "nodeId \<notin> fst ` set (visits st)"
    using inv new by (auto simp: exploreInv_def)
  have "Max (insert depth (insert 0 ?S)) = max depth (Max (insert 0 ?S))"
    by (rule Max_insert) auto
  then have m: "max (Max (insert 0 ?S)) depth = Max (insert 0 (insert depth ?S))"
    by (simp add: insert_commute max.commute)
  have mdr: "maxDepthReached st = Max (insert 0 ?S)"
    using inv by (simp add: exploreInv_def)
  show ?thesis
    unfolding exploreInv_def
  proof (intro conjI)
    show "distinct (map fst (visits (st\<lparr>visited := visited st @ [nodeId],
            st_nodes := st_nodes st @ [node], maxDepthReached := max (maxDepthReached st) depth,
            visits := visits st @ [(nodeId, depth)]\<rparr>)))"
      using inv fresh by (simp add: exploreInv_def)
    show "fst ` set (visits (st\<lparr>visited := visited st @ [nodeId],
            st_nodes := st_nodes st @ [node], maxDepthReached := max (maxDepthReached st) depth,
            visits := visits st @ [(nodeId, depth)]\<rparr>))
          \<subseteq> set (visited (st\<lparr>visited := visited st @ [nodeId],
            st_nodes := st_nodes st @ [node], maxDepthReached := max (maxDepthReached st) depth,
            visits := visits st @ [(nodeId, depth)]\<rparr>))"
      using inv by (auto simp: exploreInv_def)
    show "map Some (st_nodes (st\<lparr>visited := visited st @ [nodeId],
            st_nodes := st_nodes st @ [node], maxDepthReached := max (maxDepthReached st) depth,
            visits := visits st @ [(nodeId, depth)]\<rparr>))
          = map (\<lambda>v. getNode g (fst v)) (visits (st\<lparr>visited := visited st @ [nodeId],
            st_nodes := st_nodes st @ [node], maxDepthReached := max (maxDepthReached st) depth,
            visits := visits st @ [(nodeId, depth)]\<rparr>))"
      using inv node by (simp add: exploreInv_def)
    show "maxDepthReached (st\<lparr>visited := visited st @ [nodeId],
            st_nodes := st_nodes st @ [node], maxDepthReached := max (maxDepthReached st) depth,
            visits := visits st @ [(nodeId, depth)]\<rparr>)
          = Max (insert 0 (snd ` set (visits (st\<lparr>visited := visited st @ [nodeId],
            st_nodes := st_nodes st @ [node], maxDepthReached := max (maxDepthReached st) depth,
            visits := visits st @ [(nodeId, depth)]\<rparr>))))"
      using m mdr by simp
    show "\<forall>v \<in> set (visits (st\<lparr>visited := visited st @ [nodeId],
            st_nodes := st_nodes st @ [node], maxDepthReached := max (maxDepthReached st) depth,
            visits := visits st @ [(nodeId, depth)]\<rparr>)). 0 \<le> snd v \<and> snd v \<le> maxD"
      using inv d by (auto simp: exploreInv_def)
  qed
qed

lemma explore_inv:
  "0 \<le> depth \<Longrightarrow> exploreInv g maxD st \<Longrightarrow> exploreInv g maxD (explore g ety dir maxD nodeId depth st)"
proof (induction g ety dir maxD nodeId depth st rule: explore.induct)
  case (1 g ety dir maxD nodeId depth st)
  show ?case
  proof (cases "maxD < depth \<or> nodeId \<in> set (visited st)")
    case True
    then show ?thesis using "1.prems" by (simp add: explore.simps)
  next
    case False
    let ?st1 = "st\<lparr>visited := visited st @ [nodeId]\<rparr>"
    show ?thesis
    proof (cases "getNode g nodeId")
      case None
      then show ?thesis
        using False "1.prems" exploreInv_visit [of g maxD st nodeId]
        by (simp add: explore.simps)
    next
      case (Some node)
      let ?st2 = "?st1\<lparr>st_nodes := st_nodes ?st1 @ [node],
                       maxDepthReached := max (maxDepthReached ?st1) depth,
                       visits := visits ?st1 @ [(nodeId, depth)]\<rparr>"
      have inv2: "exploreInv g maxD ?st2"
        using exploreInv_push [OF "1.prems"(2) _ Some "1.prems"(1)] False by simp
      have out: "exploreInv g maxD
                   (fold (\<lambda>e s'. explore g ety dir maxD (target e) (depth + 1) (pushEdge e s'))
                      (getOutEdges g nodeId (Some et)) s)"
        if "et \<in> set (getEdgeTypes ety)" "dir = Out \<or> dir = Both" "exploreInv g maxD s" for et s
      proof (rule fold_preserves)
        show "exploreInv g maxD s" by (rule that(3))
        fix e s'
        assume "e \<in> set (getOutEdges g nodeId (Some et))" "exploreInv g maxD s'"
        then show "exploreInv g maxD (explore g ety dir maxD (target e) (depth + 1) (pushEdge e s'))"
          using "1.IH"(1) [OF False refl Some refl that(1) that(2)] "1.prems"(1)
          by (simp add: exploreInv_pushEdge)
      qed
      have inn: "exploreInv g maxD
                   (fold (\<lambda>e s'. explore g ety dir maxD (source e) (depth + 1) (pushEdge e s'))
                      (getInEdges g nodeId (Some et)) s)"
        if "et \<in> set (getEdgeTypes ety)" "dir = In \<or> dir = Both" "exploreInv g maxD s" for et s
      proof (rule fold_preserves)
        show "exploreInv g maxD s" by (rule that(3))
        fix e s'
        assume "e \<in> set (getInEdges g nodeId (Some et))" "exploreInv g maxD s'"
        then show "exploreInv g maxD (explore g ety dir maxD (source e) (depth + 1) (pushEdge e s'))"
          using "1.IH"(2) [OF False refl Some refl that(1) refl that(2)] "1.prems"(1)
          by (simp add: exploreInv_pushEdge)
      qed
      have "exploreInv g maxD
              (fold (\<lambda>et s.
                    let s1 = (if dir = Out \<or> dir = Both then
                                fold (\<lambda>e s'. explore g ety dir maxD (target e) (depth + 1)
                                               (pushEdge e s'))
                                     (getOutEdges g nodeId (Some et)) s
                              else s)
                    in (if dir = In \<or> dir = Both then
                          fold (\<lambda>e s'. explore g ety dir maxD (source e) (depth + 1)
                                         (pushEdge e s'))
                               (getInEdges g nodeId (Some et)) s1
                        else s1))
                  (getEdgeTypes ety) ?st2)"
      proof (rule fold_preserves)
        show "exploreInv g maxD ?st2" by (rule inv2)
        fix et s
        assume et: "et \<in> set (getEdgeTypes ety)" and s: "exploreInv g maxD s"
        show "exploreInv g maxD
               (let s1 = (if dir = Out \<or> dir = Both then
                                fold (\<lambda>e s'. explore g ety dir maxD (target e) (depth + 1)
                                               (pushEdge e s'))
                                     (getOutEdges g nodeId (Some et)) s
                              else s)
                    in (if dir = In \<or> dir = Both then
                          fold (\<lambda>e s'. explore g ety dir maxD (source e) (depth + 1)
                                         (pushEdge e s'))
                               (getInEdges g nodeId (Some et)) s1
                        else s1))"
        proof -
          let ?s1 = "if dir = Out \<or> dir = Both then
                       fold (\<lambda>e s'. explore g ety dir maxD (target e) (depth + 1) (pushEdge e s'))
                            (getOutEdges g nodeId (Some et)) s
                     else s"
          have s1: "exploreInv g maxD ?s1"
          proof (cases "dir = Out \<or> dir = Both")
            case True
            from out [OF et True s] True show ?thesis by (simp only: if_True)
          next
            case False
            with s show ?thesis by (simp only: if_False)
          qed
          have "exploreInv g maxD
                  (if dir = In \<or> dir = Both then
                     fold (\<lambda>e s'. explore g ety dir maxD (source e) (depth + 1) (pushEdge e s'))
                          (getInEdges g nodeId (Some et)) ?s1
                   else ?s1)"
          proof (cases "dir = In \<or> dir = Both")
            case True
            from inn [OF et True s1] True show ?thesis by (simp only: if_True)
          next
            case False
            with s1 show ?thesis by (simp only: if_False)
          qed
          then show ?thesis by (simp only: Let_def)
        qed
      qed
      then show ?thesis
        using False Some by (simp add: explore.simps [of g ety dir maxD nodeId depth st] Let_def)
    qed
  qed
qed

lemma traverseState_inv:
  "exploreInv g (case maxDepth options of None \<Rightarrow> 3 | Some d \<Rightarrow> d) (traverseState g options)"
  unfolding traverseState_def
  by (rule explore_inv) (simp_all add: exploreInv_def initialState_def)

lemma getNode_idsOk: "idsOk g \<Longrightarrow> getNode g i = Some n \<Longrightarrow> node_id n = i"
  by (auto simp: idsOk_def getNode_def split: if_splits dest!: map_of_SomeD)

lemma visited_node_ids:
  "idsOk g \<Longrightarrow> map Some ns = map (\<lambda>v. getNode g (fst v)) vs \<Longrightarrow> map node_id ns = map fst vs"
proof (induction ns arbitrary: vs)
  case Nil
  then show ?case by simp
next
  case (Cons n ns)
  then obtain v vs' where vs: "vs = v # vs'" by (cases vs) auto
  with Cons.prems have "getNode g (fst v) = Some n"
    and "map Some ns = map (\<lambda>v. getNode g (fst v)) vs'"
    by simp_all
  with Cons.IH [OF Cons.prems(1)] Cons.prems(1) show ?case
    by (simp add: vs getNode_idsOk)
qed

lemma explore_depth_zero:
  "st_nodes (explore g ety dir 0 i 0 initialState) = (case getNode g i of None \<Rightarrow> [] | Some n \<Rightarrow> [n])
   \<and> maxDepthReached (explore g ety dir 0 i 0 initialState) = 0"
proof (cases "getNode g i")
  case None
  then show ?thesis by (simp add: explore.simps initialState_def)
next
  case (Some node)
  let ?P = "\<lambda>s::ExploreState. st_nodes s = [node] \<and> maxDepthReached s = 0"
  let ?st2 = "initialState\<lparr>visited := visited initialState @ [i],
                st_nodes := st_nodes (initialState\<lparr>visited := visited initialState @ [i]\<rparr>) @ [node],
                maxDepthReached :=
                  max (maxDepthReached (initialState\<lparr>visited := visited initialState @ [i]\<rparr>)) 0,
                visits := visits (initialState\<lparr>visited := visited initialState @ [i]\<rparr>) @ [(i, 0)]\<rparr>"
  have inner: "?P (fold (\<lambda>e s'. explore g ety dir 0 (f e) (0 + 1) (pushEdge e s')) es s)"
    if "?P s" for f :: "Edge \<Rightarrow> string" and es s
    by (rule fold_preserves) (use that in \<open>auto simp: explore.simps pushEdge_def\<close>)
  have "?P (fold (\<lambda>et s.
                    let s1 = (if dir = Out \<or> dir = Both then
                                fold (\<lambda>e s'. explore g ety dir 0 (target e) (0 + 1)
                                               (pushEdge e s'))
                                     (getOutEdges g i (Some et)) s
                              else s)
                    in (if dir = In \<or> dir = Both then
                          fold (\<lambda>e s'. explore g ety dir 0 (source e) (0 + 1)
                                         (pushEdge e s'))
                               (getInEdges g i (Some et)) s1
                        else s1))
                  (getEdgeTypes ety) ?st2)"
  proof (rule fold_preserves)
    show "?P ?st2" by (simp add: initialState_def)
    fix et s
    assume "?P s"
    then show "?P (let s1 = (if dir = Out \<or> dir = Both then
                                fold (\<lambda>e s'. explore g ety dir 0 (target e) (0 + 1)
                                               (pushEdge e s'))
                                     (getOutEdges g i (Some et)) s
                              else s)
                    in (if dir = In \<or> dir = Both then
                          fold (\<lambda>e s'. explore g ety dir 0 (source e) (0 + 1)
                                         (pushEdge e s'))
                               (getInEdges g i (Some et)) s1
                        else s1))"
      using inner [of s target] inner [of _ source]
      by (simp only: Let_def split: if_split) blast
  qed
  moreover have "visited initialState = []"
    by (simp add: initialState_def)
  ultimately show ?thesis
    using Some by (simp add: explore.simps [of g ety dir 0 i 0 initialState] Let_def)
qed

text \<open>
  C9. \<open>explore\<close> is a total function: every recursive call is one level deeper and no call
  goes below \<open>maxDepth\<close>, which is the termination proof above. In every traversal each id
  is visited at most once (and, where every node carries its own key as id, no node occurs
  twice in the result); the nodes returned are the nodes visited, in order; the depth
  reported is the largest depth at which a node was visited (0 when none was), and all
  depths lie between 0 and \<open>maxDepth\<close>. With \<open>maxDepth = 0\<close> the nodes returned are the
  start node alone (none when the start id is not in the graph) and the depth reported
  is 0.
\<close>

theorem traverse_visits_once_reports_depth:
  "er_nodes (traverse g options) = st_nodes (traverseState g options)
   \<and> er_maxDepthReached (traverse g options) = maxDepthReached (traverseState g options)
   \<and> distinct (map fst (visits (traverseState g options)))
   \<and> map Some (er_nodes (traverse g options))
       = map (\<lambda>v. getNode g (fst v)) (visits (traverseState g options))
   \<and> er_maxDepthReached (traverse g options)
       = Max (insert 0 (snd ` set (visits (traverseState g options))))
   \<and> (\<forall>v \<in> set (visits (traverseState g options)).
         0 \<le> snd v \<and> snd v \<le> (case maxDepth options of None \<Rightarrow> 3 | Some d \<Rightarrow> d))
   \<and> (maxDepth options = Some 0 \<longrightarrow>
         er_nodes (traverse g options)
           = (case getNode g (startNode options) of None \<Rightarrow> [] | Some n \<Rightarrow> [n])
         \<and> er_maxDepthReached (traverse g options) = 0)
   \<and> (idsOk g \<longrightarrow> distinct (map node_id (er_nodes (traverse g options))))"
proof -
  note inv = traverseState_inv [of g options, unfolded exploreInv_def]
  have n: "er_nodes (traverse g options) = st_nodes (traverseState g options)"
    and m: "er_maxDepthReached (traverse g options) = maxDepthReached (traverseState g options)"
    by (simp_all add: traverse_def Let_def)
  have z: "er_nodes (traverse g options)
           = (case getNode g (startNode options) of None \<Rightarrow> [] | Some n \<Rightarrow> [n])
         \<and> er_maxDepthReached (traverse g options) = 0" if "maxDepth options = Some 0"
    using that explore_depth_zero [of g "edgeType options" _ "startNode options"]
    by (simp add: traverse_def traverseState_def Let_def)
  have d: "distinct (map node_id (er_nodes (traverse g options)))" if "idsOk g"
    using visited_node_ids [OF that, of "st_nodes (traverseState g options)"
        "visits (traverseState g options)"] inv
    by (simp add: n)
  from inv n m z d show ?thesis by simp
qed

lemma idsOk_exCycle: "idsOk exCycle"
  by (simp add: idsOk_def exCycle_def addFunctionalEdge_def addEdge_def exGraphAB_eq hasNode_def
      exHigh_def)

lemma traverse_exCycle:
  "map node_id (er_nodes (traverse exCycle (exOptions ''a'' None))) = [''a'', ''b'']
   \<and> er_maxDepthReached (traverse exCycle (exOptions ''a'' None)) = 1
   \<and> visits (traverseState exCycle (exOptions ''a'' None)) = [(''a'', 0), (''b'', 1)]"
  by code_simp

theorem traverse_visits_once_reports_depth_witness:
  "idsOk exCycle \<and> maxDepth (exOptions ''a'' (Some 0)) = Some 0
   \<and> map node_id (er_nodes (traverse exCycle (exOptions ''a'' (Some 0)))) = [''a'']
   \<and> er_maxDepthReached (traverse exCycle (exOptions ''a'' (Some 0))) = 0
   \<and> map node_id (er_nodes (traverse exCycle (exOptions ''a'' None))) = [''a'', ''b'']
   \<and> distinct (map node_id (er_nodes (traverse exCycle (exOptions ''a'' None))))
   \<and> visits (traverseState exCycle (exOptions ''a'' None)) = [(''a'', 0), (''b'', 1)]
   \<and> er_maxDepthReached (traverse exCycle (exOptions ''a'' None)) = 1"
proof -
  have g: "getNode exCycle ''a'' = Some (exHigh ''a'')"
    by (simp add: getNode_def exCycle_def addFunctionalEdge_def addEdge_def exGraphAB_eq hasNode_def)
  have o: "maxDepth (exOptions ''a'' (Some 0)) = Some 0" "startNode (exOptions ''a'' (Some 0)) = ''a''"
    by (simp_all add: exOptions_def)
  from traverse_visits_once_reports_depth [of exCycle "exOptions ''a'' (Some 0)"] o g
  have "er_nodes (traverse exCycle (exOptions ''a'' (Some 0))) = [exHigh ''a'']"
    and "er_maxDepthReached (traverse exCycle (exOptions ''a'' (Some 0))) = 0"
    by auto
  moreover have "distinct (map node_id (er_nodes (traverse exCycle (exOptions ''a'' None))))"
    using traverse_visits_once_reports_depth [of exCycle "exOptions ''a'' None"] idsOk_exCycle
    by blast
  ultimately show ?thesis
    using idsOk_exCycle o(1) traverse_exCycle by (simp add: exHigh_def)
qed

section \<open>Lemmas on split and join\<close>

lemma split_not_Nil: "split c s \<noteq> []"
  by (induction s) (auto split: list.splits)

lemma split_no_sep: "c \<notin> set s \<Longrightarrow> split c s = [s]"
  by (induction s) auto

lemma split_append_sep: "split c (a @ c # b) = split c a @ split c b"
proof (induction a)
  case Nil
  show ?case by simp
next
  case (Cons x a)
  then show ?case
    using split_not_Nil [of c a] by (cases "split c a") auto
qed

lemma split_elems: "x \<in> set (split c s) \<Longrightarrow> c \<notin> set x"
proof (induction s arbitrary: x)
  case Nil
  then show ?case by simp
next
  case (Cons y s)
  then show ?case
    by (cases "split c s") (auto split: if_splits)
qed

lemma join_Cons: "ys \<noteq> [] \<Longrightarrow> join sep (x # ys) = x @ sep @ join sep ys"
  by (cases ys) auto

lemma join_append: "xs \<noteq> [] \<Longrightarrow> ys \<noteq> [] \<Longrightarrow> join sep (xs @ ys) = join sep xs @ sep @ join sep ys"
proof (induction xs)
  case Nil
  then show ?case by simp
next
  case (Cons x xs)
  then show ?case
    by (cases "xs = []") (simp_all add: join_Cons)
qed

lemma split_join:
  "segs \<noteq> [] \<Longrightarrow> \<forall>s \<in> set segs. c \<notin> set s \<Longrightarrow> split c (join [c] segs) = segs"
proof (induction segs)
  case Nil
  then show ?case by simp
next
  case (Cons s segs)
  show ?case
  proof (cases "segs = []")
    case True
    with Cons.prems show ?thesis by (simp add: split_no_sep)
  next
    case False
    with Cons show ?thesis
      by (simp add: join_Cons split_append_sep split_no_sep)
  qed
qed

lemma segments_join: "\<forall>s \<in> set segs. goodSeg s \<Longrightarrow> segments (join ''/'' segs) = segs"
proof (cases "segs = []")
  case True
  then show ?thesis by (simp add: segments_def)
next
  case False
  assume g: "\<forall>s \<in> set segs. goodSeg s"
  then have "split (CHR ''/'') (join ''/'' segs) = segs"
    using False split_join [of segs "CHR ''/''"] by (simp add: goodSeg_def)
  moreover have "filter (\<lambda>s. length s > 0) segs = segs"
    using g by (simp add: goodSeg_def filter_id_conv)
  ultimately show ?thesis by (simp add: segments_def)
qed

lemma segments_good: "s \<in> set (segments p) \<Longrightarrow> goodSeg s"
  using split_elems [of s "CHR ''/''" p] by (auto simp: segments_def goodSeg_def)

lemma startsWith_append: "startsWith (a @ b) a"
  by (simp add: startsWith_def)

lemma startsWith_iff: "startsWith s p \<longleftrightarrow> (\<exists>r. s = p @ r)"
proof
  assume "startsWith s p"
  then have "s = p @ drop (length p) s"
    by (metis append_take_drop_id startsWith_def)
  then show "\<exists>r. s = p @ r" ..
next
  assume "\<exists>r. s = p @ r"
  then show "startsWith s p" by (auto simp: startsWith_def)
qed

lemma startsWith_join:
  assumes "\<forall>s \<in> set segs. goodSeg s" and "\<forall>s \<in> set pre. goodSeg s" and "pre \<noteq> []"
  shows "startsWith (join ''/'' segs) (join ''/'' pre @ ''/'') \<longleftrightarrow> strict_prefix pre segs"
proof
  assume "strict_prefix pre segs"
  then obtain q where q: "segs = pre @ q" "q \<noteq> []"
    by (auto simp: strict_prefix_def prefix_def)
  then have "join ''/'' segs = (join ''/'' pre @ ''/'') @ join ''/'' q"
    using assms(3) by (simp add: join_append)
  then show "startsWith (join ''/'' segs) (join ''/'' pre @ ''/'')"
    by (simp only: startsWith_append)
next
  assume "startsWith (join ''/'' segs) (join ''/'' pre @ ''/'')"
  then obtain r where r: "join ''/'' segs = (join ''/'' pre @ ''/'') @ r"
    by (auto simp: startsWith_iff)
  have ne: "segs \<noteq> []"
    using r by (cases segs) auto
  have "split (CHR ''/'') (join ''/'' segs) = segs"
    using split_join [OF ne, of "CHR ''/''"] assms(1) by (simp add: goodSeg_def)
  moreover have "split (CHR ''/'') (join ''/'' pre @ CHR ''/'' # r)
                   = split (CHR ''/'') (join ''/'' pre) @ split (CHR ''/'') r"
    by (rule split_append_sep)
  moreover have "split (CHR ''/'') (join ''/'' pre) = pre"
    using split_join [OF assms(3), of "CHR ''/''"] assms(2) by (simp add: goodSeg_def)
  ultimately have "segs = pre @ split (CHR ''/'') r"
    using r by simp
  then show "strict_prefix pre segs"
    using split_not_Nil [of "CHR ''/''" r] by (auto simp: strict_prefix_def prefix_def)
qed

section \<open>The trie built by insert\<close>

lemma terminalsCh_Union: "terminalsCh cs = (\<Union>(s, c) \<in> set cs. (#) s ` terminals c)"
proof (induction cs)
  case Nil
  show ?case by simp
next
  case (Cons a cs)
  then show ?case by (cases a) auto
qed

lemma childrenOk_iff:
  "childrenOk cs \<longleftrightarrow> (\<forall>(s, c) \<in> set cs. goodSeg s \<and> trieOk c \<and> terminals c \<noteq> {})"
  by (induction cs) auto

lemma set_update_subset: "set (AList.update k v al) \<subseteq> Set.insert (k, v) (set al)"
  by (induction al) auto

lemma terminalsCh_update:
  "map_of cs s = Some c \<Longrightarrow> terminals c \<subseteq> terminals c' \<Longrightarrow>
   terminalsCh (AList.update s c' cs) = terminalsCh cs \<union> (#) s ` terminals c'"
proof (induction cs)
  case Nil
  then show ?case by simp
next
  case (Cons a cs)
  obtain k v where a: "a = (k, v)" by (cases a)
  show ?case
  proof (cases "k = s")
    case True
    with Cons.prems a have "v = c" by simp
    with True a Cons.prems(2) show ?thesis by auto
  next
    case False
    with Cons a show ?thesis by auto
  qed
qed

lemma terminalsCh_append: "terminalsCh (cs @ [(s, c)]) = terminalsCh cs \<union> (#) s ` terminals c"
proof (induction cs)
  case Nil
  show ?case by simp
next
  case (Cons a cs)
  then show ?case by (cases a) auto
qed

lemma terminals_insertSegments: "terminals (insertSegments p n) = Set.insert p (terminals n)"
proof (induction p n rule: insertSegments.induct)
  case (1 t cs)
  show ?case by simp
next
  case (2 seg segs t cs)
  show ?case
  proof (cases "map_of cs seg")
    case None
    then show ?thesis
      using "2.IH"(1) [OF None] by (simp add: terminalsCh_append)
  next
    case (Some child)
    have sub: "terminals child \<subseteq> terminals (insertSegments segs child)"
      using "2.IH"(2) [OF Some] by auto
    have "(#) seg ` terminals child \<subseteq> terminalsCh cs"
      using map_of_SomeD [OF Some] by (force simp: terminalsCh_Union)
    then show ?thesis
      using Some "2.IH"(2) [OF Some] terminalsCh_update [OF Some sub] by auto
  qed
qed

lemma trieOk_insertSegments:
  "trieOk n \<Longrightarrow> \<forall>s \<in> set p. goodSeg s \<Longrightarrow> trieOk (insertSegments p n)"
proof (induction p n rule: insertSegments.induct)
  case (1 t cs)
  then show ?case by simp
next
  case (2 seg segs t cs)
  show ?case
  proof (cases "map_of cs seg")
    case None
    have "trieOk (insertSegments segs (TrieNode False []))"
      using "2.IH"(1) [OF None] "2.prems"(2) by simp
    moreover have "seg \<notin> fst ` set cs"
      using None by (simp add: map_of_eq_None_iff)
    ultimately show ?thesis
      using None "2.prems" by (simp add: childrenOk_iff terminals_insertSegments)
  next
    case (Some child)
    have "trieOk child"
      using map_of_SomeD [OF Some] "2.prems"(1) by (auto simp: childrenOk_iff)
    then have "trieOk (insertSegments segs child)"
      using "2.IH"(2) [OF Some] "2.prems"(2) by simp
    then have "childrenOk (AList.update seg (insertSegments segs child) cs)"
      using "2.prems" set_update_subset [of seg "insertSegments segs child" cs]
      by (auto simp: childrenOk_iff terminals_insertSegments)
    then show ?thesis
      using Some "2.prems"(1) by (simp add: distinct_update)
  qed
qed

lemma fold_insert_trie:
  "trieOk n \<Longrightarrow>
   trieOk (foldl (\<lambda>t dir. trie_insert dir t) n dirs)
   \<and> terminals (foldl (\<lambda>t dir. trie_insert dir t) n dirs) = terminals n \<union> segments ` set dirs"
proof (induction dirs arbitrary: n)
  case Nil
  then show ?case by simp
next
  case (Cons d dirs)
  have ok: "trieOk (trie_insert d n)"
    unfolding trie_insert_def
    using trieOk_insertSegments [OF Cons.prems, of "segments d"] segments_good [of _ d]
    by (simp add: segments_def)
  have "terminals (trie_insert d n) = Set.insert (segments d) (terminals n)"
    by (simp add: trie_insert_def terminals_insertSegments segments_def)
  with Cons.IH [OF ok] show ?case by auto
qed

section \<open>postOrder reports the topmost marked nodes\<close>

lemma lcaSegs_prefix:
  "q \<in> set (lcaSegs n pre) \<Longrightarrow> prefix pre q"
  "q \<in> set (lcaCh cs pre) \<Longrightarrow> \<exists>s \<in> fst ` set cs. prefix (pre @ [s]) q"
proof (induction n pre and cs pre arbitrary: q and q rule: lcaSegs_lcaCh.induct)
  case (1 t cs pre)
  then show ?case
    by (fastforce split: if_splits dest: append_prefixD)
next
  case (2 pre)
  then show ?case by simp
next
  case (3 s c rest pre)
  then show ?case by auto
qed

lemma lcaSegs_good:
  "trieOk n \<Longrightarrow> \<forall>s \<in> set pre. goodSeg s \<Longrightarrow> q \<in> set (lcaSegs n pre) \<Longrightarrow> \<forall>s \<in> set q. goodSeg s"
  "childrenOk cs \<Longrightarrow> \<forall>s \<in> set pre. goodSeg s \<Longrightarrow> q \<in> set (lcaCh cs pre) \<Longrightarrow> \<forall>s \<in> set q. goodSeg s"
proof (induction n pre and cs pre arbitrary: q and q rule: lcaSegs_lcaCh.induct)
  case (1 t cs pre)
  then show ?case by (auto split: if_splits)
next
  case (2 pre)
  then show ?case by simp
next
  case (3 s c rest pre)
  then show ?case by auto
qed

lemma prefix_sibling: "prefix (pre @ [s]) q \<Longrightarrow> s \<noteq> s' \<Longrightarrow> \<not> prefix (pre @ [s']) q"
  by (auto simp: prefix_def)

lemma postOrder_lcaSegs:
  "trieOk n \<Longrightarrow> \<forall>s \<in> set pre. goodSeg s \<Longrightarrow> \<forall>q \<in> set Q. \<forall>s \<in> set q. goodSeg s \<Longrightarrow>
     \<forall>q \<in> set Q. \<not> strict_prefix pre q \<Longrightarrow>
     snd (postOrder n pre (map (join ''/'') Q)) = map (join ''/'') (Q @ lcaSegs n pre)"
  "childrenOk cs \<Longrightarrow> distinct (map fst cs) \<Longrightarrow> \<forall>s \<in> set pre. goodSeg s \<Longrightarrow>
     \<forall>q \<in> set Q. \<forall>s \<in> set q. goodSeg s \<Longrightarrow>
     \<forall>q \<in> set Q. \<forall>s \<in> fst ` set cs. \<not> prefix (pre @ [s]) q \<Longrightarrow>
     snd (postOrderChildren cs pre (map (join ''/'') Q)) = map (join ''/'') (Q @ lcaCh cs pre)
     \<and> length (fst (postOrderChildren cs pre (map (join ''/'') Q))) = length cs"
proof (induction n pre "map (join ''/'') Q" and cs pre "map (join ''/'') Q"
    arbitrary: Q and Q rule: postOrder_postOrderChildren.induct)
  case (1 t cs pre)
  have pc: "\<forall>q \<in> set Q. \<forall>s \<in> fst ` set cs. \<not> prefix (pre @ [s]) q"
  proof (intro ballI notI)
    fix q s
    assume q: "q \<in> set Q" and "s \<in> fst ` set cs" and "prefix (pre @ [s]) q"
    then have "strict_prefix pre q"
      by (auto simp: strict_prefix_def prefix_def)
    with "1.prems"(4) q show False by blast
  qed
  have ch: "snd (postOrderChildren cs pre (map (join ''/'') Q)) = map (join ''/'') (Q @ lcaCh cs pre)"
    and len: "length (fst (postOrderChildren cs pre (map (join ''/'') Q))) = length cs"
    using "1.hyps" [OF refl] "1.prems" pc by simp_all
  obtain cs1 R1 where p: "postOrderChildren cs pre (map (join ''/'') Q) = (cs1, R1)"
    by (cases "postOrderChildren cs pre (map (join ''/'') Q)")
  with ch len have R1: "R1 = map (join ''/'') (Q @ lcaCh cs pre)" and l1: "length cs1 = length cs"
    by simp_all
  show ?case
  proof (cases "pre \<noteq> [] \<and> (length cs > 1 \<or> t)")
    case False
    then show ?thesis
      using p R1 l1 by (auto simp: isBranching_def)
  next
    case True
    have keepQ: "filter (\<lambda>r. \<not> startsWith r (join ''/'' pre @ ''/'')) (map (join ''/'') Q)
                 = map (join ''/'') Q"
      using "1.prems"(2,3,4) True by (simp add: filter_id_conv startsWith_join)
    have dropC: "filter (\<lambda>r. \<not> startsWith r (join ''/'' pre @ ''/'')) (map (join ''/'') (lcaCh cs pre)) = []"
    proof -
      have "startsWith (join ''/'' q) (join ''/'' pre @ ''/'')" if "q \<in> set (lcaCh cs pre)" for q
      proof -
        from lcaSegs_prefix(2) [OF that] have "strict_prefix pre q"
          by (auto simp: strict_prefix_def prefix_def)
        moreover have "\<forall>s \<in> set q. goodSeg s"
          using lcaSegs_good(2) [OF _ "1.prems"(2) that] "1.prems"(1) by simp
        ultimately show ?thesis
          using "1.prems"(2) True by (simp add: startsWith_join)
      qed
      then show ?thesis by (simp add: filter_empty_conv)
    qed
    show ?thesis
      using True p R1 l1 keepQ dropC by (simp add: isBranching_def Let_def)
  qed
next
  case (2 pre)
  then show ?case by simp
next
  case (3 segment child rest pre)
  have okc: "trieOk child" and gs: "goodSeg segment" and okr: "childrenOk rest"
    and dr: "distinct (map fst rest)" and nk: "segment \<notin> fst ` set rest"
    using "3.prems"(1,2) by auto
  have gp: "\<forall>s \<in> set (pre @ [segment]). goodSeg s"
    using "3.prems"(3) gs by simp
  have cl: "\<forall>q \<in> set Q. \<not> strict_prefix (pre @ [segment]) q"
    using "3.prems"(5) by (auto simp: strict_prefix_def)
  have c1: "snd (postOrder child (pre @ [segment]) (map (join ''/'') Q))
            = map (join ''/'') (Q @ lcaSegs child (pre @ [segment]))"
    using "3.hyps"(1) [OF refl okc gp "3.prems"(4) cl] .
  obtain child1 R1 where p1: "postOrder child (pre @ [segment]) (map (join ''/'') Q) = (child1, R1)"
    by (cases "postOrder child (pre @ [segment]) (map (join ''/'') Q)")
  let ?Q1 = "Q @ lcaSegs child (pre @ [segment])"
  have R1: "R1 = map (join ''/'') ?Q1"
    using c1 p1 by simp
  have g1: "\<forall>q \<in> set ?Q1. \<forall>s \<in> set q. goodSeg s"
    using "3.prems"(4) lcaSegs_good(1) [OF okc gp] by auto
  have cl1: "\<forall>q \<in> set ?Q1. \<forall>s \<in> fst ` set rest. \<not> prefix (pre @ [s]) q"
  proof (intro ballI)
    fix q s
    assume q: "q \<in> set ?Q1" and s: "s \<in> fst ` set rest"
    show "\<not> prefix (pre @ [s]) q"
    proof (cases "q \<in> set Q")
      case True
      with "3.prems"(5) s show ?thesis by auto
    next
      case False
      with q have "prefix (pre @ [segment]) q"
        using lcaSegs_prefix(1) by auto
      moreover have "segment \<noteq> s" using nk s by auto
      ultimately show ?thesis by (rule prefix_sibling)
    qed
  qed
  have p1': "(child1, map (join ''/'') ?Q1) = postOrder child (pre @ [segment]) (map (join ''/'') Q)"
    using p1 R1 by simp
  have r: "snd (postOrderChildren rest pre R1) = map (join ''/'') (?Q1 @ lcaCh rest pre)
           \<and> length (fst (postOrderChildren rest pre R1)) = length rest"
    using "3.hyps"(2) [OF p1' okr dr "3.prems"(3) g1 cl1] R1 by simp
  obtain rest1 R2 where p2: "postOrderChildren rest pre R1 = (rest1, R2)"
    by (cases "postOrderChildren rest pre R1")
  show ?case
    using p1 p2 r by simp
qed

section \<open>The reported paths in terms of the inserted paths\<close>

lemma marked_Cons: "marked T (s # p) \<longleftrightarrow> marked {x. s # x \<in> T} p"
  by (simp add: marked_def)

lemma marked_empty: "\<not> marked {} p"
  by (simp add: marked_def)

lemma strict_prefix_Cons_iff:
  "q \<noteq> [] \<and> strict_prefix q (s # p) \<longleftrightarrow> (\<exists>q'. q = s # q' \<and> strict_prefix q' p)"
  by (cases q) auto

lemma topMarked_Cons:
  "topMarked T (s # p) \<longleftrightarrow>
     marked {x. s # x \<in> T} p \<and> (\<forall>q. strict_prefix q p \<longrightarrow> \<not> marked {x. s # x \<in> T} q)"
proof -
  have "(\<forall>q. q \<noteq> [] \<and> strict_prefix q (s # p) \<longrightarrow> \<not> marked T q)
        \<longleftrightarrow> (\<forall>q'. strict_prefix q' p \<longrightarrow> \<not> marked T (s # q'))"
  proof (intro iffI allI impI)
    fix q'
    assume a: "\<forall>q. q \<noteq> [] \<and> strict_prefix q (s # p) \<longrightarrow> \<not> marked T q"
      and "strict_prefix q' p"
    then have "s # q' \<noteq> [] \<and> strict_prefix (s # q') (s # p)" by simp
    with a [THEN spec, of "s # q'"] show "\<not> marked T (s # q')" by (rule mp)
  next
    fix q
    assume a: "\<forall>q'. strict_prefix q' p \<longrightarrow> \<not> marked T (s # q')"
      and q: "q \<noteq> [] \<and> strict_prefix q (s # p)"
    then have "\<exists>q'. q = s # q' \<and> strict_prefix q' p"
      by (simp only: strict_prefix_Cons_iff)
    then obtain q' where q': "q = s # q'" "strict_prefix q' p"
      by (elim exE conjE)
    from a [THEN spec, of q'] q'(2) have "\<not> marked T (s # q')" by (rule mp)
    then show "\<not> marked T q" using q'(1) by simp
  qed
  then show ?thesis
    by (simp only: topMarked_def marked_Cons list.distinct simp_thms)
qed

lemma Cons_in_terminals:
  "s # x \<in> terminals (TrieNode t cs) \<longleftrightarrow> (\<exists>c. (s, c) \<in> set cs \<and> x \<in> terminals c)"
proof -
  have "s # x \<in> terminals (TrieNode t cs) \<longleftrightarrow> s # x \<in> terminalsCh cs"
    by simp
  also have "\<dots> \<longleftrightarrow> (\<exists>(s', c) \<in> set cs. s # x \<in> (#) s' ` terminals c)"
    unfolding terminalsCh_Union by blast
  also have "\<dots> \<longleftrightarrow> (\<exists>c. (s, c) \<in> set cs \<and> x \<in> terminals c)"
    by force
  finally show ?thesis .
qed

lemma terminals_sub:
  assumes "trieOk (TrieNode t cs)"
  shows "(s, c) \<in> set cs \<Longrightarrow> {x. s # x \<in> terminals (TrieNode t cs)} = terminals c"
    and "s \<notin> fst ` set cs \<Longrightarrow> {x. s # x \<in> terminals (TrieNode t cs)} = {}"
proof -
  have d: "distinct (map fst cs)" using assms by simp
  show "{x. s # x \<in> terminals (TrieNode t cs)} = terminals c" if sc: "(s, c) \<in> set cs"
  proof -
    have "c' = c" if "(s, c') \<in> set cs" for c'
      using d that sc by (rule eq_key_imp_eq_value)
    then show ?thesis
      unfolding Cons_in_terminals using sc by blast
  qed
  show "{x. s # x \<in> terminals (TrieNode t cs)} = {}" if "s \<notin> fst ` set cs"
    unfolding Cons_in_terminals using that by force
qed

lemma marked_root:
  assumes "trieOk (TrieNode t cs)"
  shows "marked (terminals (TrieNode t cs)) [] \<longleftrightarrow> t \<or> length cs > 1"
proof -
  let ?T = "terminals (TrieNode t cs)"
  have nil: "[] \<in> ?T \<longleftrightarrow> t"
    by (auto simp: terminalsCh_Union)
  have key: "s \<in> fst ` set cs" if "s # q \<in> ?T" for s q
    using that unfolding Cons_in_terminals by force
  have two: "(\<exists>s1 q1 s2 q2. s1 \<noteq> s2 \<and> s1 # q1 \<in> ?T \<and> s2 # q2 \<in> ?T) \<longleftrightarrow> length cs > 1"
  proof
    assume "\<exists>s1 q1 s2 q2. s1 \<noteq> s2 \<and> s1 # q1 \<in> ?T \<and> s2 # q2 \<in> ?T"
    then obtain s1 q1 s2 q2 where d: "s1 \<noteq> s2" and "s1 # q1 \<in> ?T" "s2 # q2 \<in> ?T"
      by (elim exE conjE)
    then have k: "s1 \<in> fst ` set cs" "s2 \<in> fst ` set cs"
      by (simp_all only: key)
    show "length cs > 1"
    proof (cases cs)
      case Nil
      with k show ?thesis by simp
    next
      case (Cons a rest)
      show ?thesis
      proof (cases rest)
        case Nil
        with Cons k have "s1 = fst a" "s2 = fst a" by simp_all
        with d show ?thesis by simp
      next
        case (Cons b rest')
        with \<open>cs = a # rest\<close> show ?thesis by simp
      qed
    qed
  next
    assume "length cs > 1"
    then obtain a b rest where cs: "cs = a # b # rest"
      by (cases cs; cases "tl cs") auto
    obtain s1 c1 s2 c2 where ab: "a = (s1, c1)" "b = (s2, c2)"
      by (cases a; cases b) auto
    from assms cs ab have "s1 \<noteq> s2" "terminals c1 \<noteq> {}" "terminals c2 \<noteq> {}"
      by auto
    then obtain q1 q2 where "q1 \<in> terminals c1" "q2 \<in> terminals c2" by blast
    then have "s1 # q1 \<in> ?T" "s2 # q2 \<in> ?T"
      unfolding Cons_in_terminals using cs ab by auto
    with \<open>s1 \<noteq> s2\<close> show "\<exists>s1 q1 s2 q2. s1 \<noteq> s2 \<and> s1 # q1 \<in> ?T \<and> s2 # q2 \<in> ?T"
      by blast
  qed
  show ?thesis
    unfolding marked_def using nil two by simp
qed

lemma topMarked_children:
  assumes "trieOk (TrieNode t cs)"
  shows "{p. topMarked (terminals (TrieNode t cs)) p}
         = (\<Union>(s, c) \<in> set cs. (#) s ` {p. marked (terminals c) p
                                       \<and> (\<forall>q. strict_prefix q p \<longrightarrow> \<not> marked (terminals c) q)})"
    (is "?L = ?R")
proof (intro set_eqI iffI)
  fix p
  assume "p \<in> ?L"
  then have tm: "topMarked (terminals (TrieNode t cs)) p" by simp
  then obtain s p' where p: "p = s # p'"
    by (cases p) (auto simp: topMarked_def)
  have m: "marked {x. s # x \<in> terminals (TrieNode t cs)} p'"
    and f: "\<forall>q. strict_prefix q p' \<longrightarrow> \<not> marked {x. s # x \<in> terminals (TrieNode t cs)} q"
    using tm by (simp_all add: p topMarked_Cons)
  have "s \<in> fst ` set cs"
    using m terminals_sub(2) [OF assms, of s] marked_empty by fastforce
  then obtain c where c: "(s, c) \<in> set cs" by auto
  with m f terminals_sub(1) [OF assms c] show "p \<in> ?R"
    using p by auto
next
  fix p
  assume "p \<in> ?R"
  then obtain s c p' where c: "(s, c) \<in> set cs" and p: "p = s # p'"
    and "marked (terminals c) p'" "\<forall>q. strict_prefix q p' \<longrightarrow> \<not> marked (terminals c) q"
    by auto
  then show "p \<in> ?L"
    using terminals_sub(1) [OF assms c] by (simp add: topMarked_Cons)
qed

lemma firstMarked_cases:
  "marked T [] \<Longrightarrow> {p. marked T p \<and> (\<forall>q. strict_prefix q p \<longrightarrow> \<not> marked T q)} = {[]}"
  "\<not> marked T [] \<Longrightarrow> {p. marked T p \<and> (\<forall>q. strict_prefix q p \<longrightarrow> \<not> marked T q)} = {p. topMarked T p}"
proof -
  show "{p. marked T p \<and> (\<forall>q. strict_prefix q p \<longrightarrow> \<not> marked T q)} = {[]}" if m: "marked T []"
  proof (rule set_eqI)
    fix p
    show "p \<in> {p. marked T p \<and> (\<forall>q. strict_prefix q p \<longrightarrow> \<not> marked T q)} \<longleftrightarrow> p \<in> {[]}"
    proof (cases p)
      case Nil
      with m show ?thesis by simp
    next
      case (Cons s p')
      then have "strict_prefix [] p" by simp
      with m have "\<not> (\<forall>q. strict_prefix q p \<longrightarrow> \<not> marked T q)" by blast
      with Cons show ?thesis by simp
    qed
  qed
  show "{p. marked T p \<and> (\<forall>q. strict_prefix q p \<longrightarrow> \<not> marked T q)} = {p. topMarked T p}"
    if nm: "\<not> marked T []"
  proof (intro set_eqI iffI)
    fix p
    assume "p \<in> {p. marked T p \<and> (\<forall>q. strict_prefix q p \<longrightarrow> \<not> marked T q)}"
    then have mp: "marked T p" and f: "\<And>q. strict_prefix q p \<Longrightarrow> \<not> marked T q"
      by simp_all
    from mp nm have "p \<noteq> []" by (cases p) simp_all
    with mp f have "topMarked T p"
      unfolding topMarked_def by simp
    then show "p \<in> {p. topMarked T p}" by simp
  next
    fix p
    assume "p \<in> {p. topMarked T p}"
    then have mp: "marked T p" and f: "\<And>q. q \<noteq> [] \<Longrightarrow> strict_prefix q p \<Longrightarrow> \<not> marked T q"
      unfolding topMarked_def by simp_all
    have "\<not> marked T q" if "strict_prefix q p" for q
    proof (cases q)
      case Nil
      with nm show ?thesis by simp
    next
      case (Cons a q')
      then have "q \<noteq> []" by simp
      then show ?thesis using that by (rule f)
    qed
    with mp show "p \<in> {p. marked T p \<and> (\<forall>q. strict_prefix q p \<longrightarrow> \<not> marked T q)}"
      by simp
  qed
qed

lemma lcaSegs_firstMarked:
  "trieOk n \<Longrightarrow> pre \<noteq> [] \<Longrightarrow>
     set (lcaSegs n pre)
       = (@) pre ` {p. marked (terminals n) p \<and> (\<forall>q. strict_prefix q p \<longrightarrow> \<not> marked (terminals n) q)}"
  "childrenOk cs \<Longrightarrow> distinct (map fst cs) \<Longrightarrow>
     set (lcaCh cs pre)
       = (\<Union>(s, c) \<in> set cs. (@) (pre @ [s]) `
            {p. marked (terminals c) p \<and> (\<forall>q. strict_prefix q p \<longrightarrow> \<not> marked (terminals c) q)})"
proof (induction n pre and cs pre rule: lcaSegs_lcaCh.induct)
  case (1 t cs pre)
  let ?T = "terminals (TrieNode t cs)"
  show ?case
  proof (cases "length cs > 1 \<or> t")
    case True
    then have "marked ?T []"
      using marked_root [OF "1.prems"(1)] by blast
    then show ?thesis
      using True "1.prems"(2) by (simp add: firstMarked_cases(1) del: terminals.simps)
  next
    case False
    then have nm: "\<not> marked ?T []"
      using marked_root [OF "1.prems"(1)] by blast
    have "set (lcaCh cs pre)
            = (\<Union>(s, c) \<in> set cs. (@) (pre @ [s]) `
                 {p. marked (terminals c) p \<and> (\<forall>q. strict_prefix q p \<longrightarrow> \<not> marked (terminals c) q)})"
      using "1.IH" False "1.prems" by simp
    also have "\<dots> = (@) pre ` (\<Union>(s, c) \<in> set cs. (#) s `
                 {p. marked (terminals c) p \<and> (\<forall>q. strict_prefix q p \<longrightarrow> \<not> marked (terminals c) q)})"
      by (auto simp: image_iff)
    also have "\<dots> = (@) pre ` {p. topMarked ?T p}"
      by (simp only: topMarked_children [OF "1.prems"(1)])
    also have "\<dots> = (@) pre ` {p. marked ?T p \<and> (\<forall>q. strict_prefix q p \<longrightarrow> \<not> marked ?T q)}"
      by (simp only: firstMarked_cases(2) [OF nm])
    finally show ?thesis
      using False by simp
  qed
next
  case (2 pre)
  show ?case by simp
next
  case (3 s c rest pre)
  then show ?case by auto
qed

lemma lcaSegs_root:
  assumes "trieOk n"
  shows "set (lcaSegs n []) = {p. topMarked (terminals n) p}"
proof -
  obtain t cs where n: "n = TrieNode t cs" by (cases n)
  have "set (lcaCh cs [])
          = (\<Union>(s, c) \<in> set cs. (@) ([] @ [s]) `
               {p. marked (terminals c) p \<and> (\<forall>q. strict_prefix q p \<longrightarrow> \<not> marked (terminals c) q)})"
    using assms n by (intro lcaSegs_firstMarked(2)) simp_all
  also have "\<dots> = (\<Union>(s, c) \<in> set cs. (#) s `
               {p. marked (terminals c) p \<and> (\<forall>q. strict_prefix q p \<longrightarrow> \<not> marked (terminals c) q)})"
    by simp
  also have "\<dots> = {p. topMarked (terminals (TrieNode t cs)) p}"
    using assms n by (simp only: topMarked_children)
  finally show ?thesis by (simp add: n)
qed

lemma lcaSegs_distinct:
  "trieOk n \<Longrightarrow> distinct (lcaSegs n pre)"
  "childrenOk cs \<Longrightarrow> distinct (map fst cs) \<Longrightarrow> distinct (lcaCh cs pre)"
proof (induction n pre and cs pre rule: lcaSegs_lcaCh.induct)
  case (1 t cs pre)
  then show ?case by simp
next
  case (2 pre)
  show ?case by simp
next
  case (3 s c rest pre)
  have "set (lcaSegs c (pre @ [s])) \<inter> set (lcaCh rest pre) = {}"
  proof (rule ccontr)
    assume "set (lcaSegs c (pre @ [s])) \<inter> set (lcaCh rest pre) \<noteq> {}"
    then obtain q where q: "q \<in> set (lcaSegs c (pre @ [s]))" "q \<in> set (lcaCh rest pre)"
      by blast
    from lcaSegs_prefix(2) [OF q(2)] obtain s' where s': "s' \<in> fst ` set rest" "prefix (pre @ [s']) q"
      by blast
    have "s \<noteq> s'" using "3.prems"(2) s'(1) by auto
    with lcaSegs_prefix(1) [OF q(1)] have "\<not> prefix (pre @ [s']) q"
      by (rule prefix_sibling)
    from this s'(2) show False by (rule notE)
  qed
  moreover have "distinct (lcaSegs c (pre @ [s]))"
    using "3.IH"(1) "3.prems"(1) by simp
  moreover have "distinct (lcaCh rest pre)"
    using "3.IH"(2) "3.prems" by simp
  ultimately show ?case by (simp only: lcaCh.simps distinct_append simp_thms)
qed

lemma join_inj: "\<forall>s \<in> set p. goodSeg s \<Longrightarrow> \<forall>s \<in> set q. goodSeg s \<Longrightarrow> join ''/'' p = join ''/'' q \<Longrightarrow> p = q"
  by (metis segments_join)

lemma topMarked_exists:
  assumes "t \<in> T" and "t \<noteq> []"
  shows "\<exists>p. topMarked T p"
proof -
  let ?P = "\<lambda>q. q \<noteq> [] \<and> prefix q t \<and> marked T q"
  have "?P t" using assms by (simp add: marked_def)
  then obtain q where q: "?P q" and least: "\<And>y. ?P y \<Longrightarrow> length q \<le> length y"
    using ex_has_least_nat [of ?P t length] by blast
  have "\<not> marked T q'" if "q' \<noteq> [] \<and> strict_prefix q' q" for q'
  proof
    assume "marked T q'"
    moreover have "prefix q' t"
      using that q by (meson prefix_order.dual_order.trans strict_prefix_def)
    ultimately have "length q \<le> length q'"
      using least [of q'] that by simp
    moreover have "length q' < length q"
      using that by (simp add: prefix_length_less)
    ultimately show False by simp
  qed
  with q show ?thesis
    by (auto simp: topMarked_def)
qed

section \<open>computeLCA\<close>

lemma computeLCA_trie:
  assumes "length xs \<ge> 2"
  shows "\<exists>L. computeLCA xs = map (join ''/'') L \<and> distinct L
            \<and> (\<forall>p \<in> set L. \<forall>s \<in> set p. goodSeg s)
            \<and> set L = {p. topMarked (segments ` set xs) p}"
proof -
  define trie where "trie = foldl (\<lambda>t dir. trie_insert dir t) (TrieNode False []) xs"
  have e: "trieOk (TrieNode False [])" by simp
  have ok: "trieOk trie"
    unfolding trie_def using fold_insert_trie [OF e, of xs] by (rule conjunct1)
  have "terminals trie = terminals (TrieNode False []) \<union> segments ` set xs"
    unfolding trie_def using fold_insert_trie [OF e, of xs] by (rule conjunct2)
  then have T: "terminals trie = segments ` set xs" by simp
  have "snd (postOrder trie [] (map (join ''/'') [])) = map (join ''/'') ([] @ lcaSegs trie [])"
    by (rule postOrder_lcaSegs(1) [OF ok]) simp_all
  then have r: "snd (postOrder trie [] []) = map (join ''/'') (lcaSegs trie [])"
    by simp
  have "length xs \<noteq> 0" "length xs \<noteq> 1" using assms by auto
  then have c: "computeLCA xs = map (join ''/'') (lcaSegs trie [])"
    unfolding computeLCA_def Let_def trie_def [symmetric] by (simp only: if_False r)
  show ?thesis
  proof (intro exI conjI)
    show "computeLCA xs = map (join ''/'') (lcaSegs trie [])" by (rule c)
    show "distinct (lcaSegs trie [])" using ok by (rule lcaSegs_distinct(1))
    show "\<forall>p \<in> set (lcaSegs trie []). \<forall>s \<in> set p. goodSeg s"
      using lcaSegs_good(1) [OF ok, of "[]"] by simp
    show "set (lcaSegs trie []) = {p. topMarked (segments ` set xs) p}"
      using lcaSegs_root [OF ok] by (simp only: T)
  qed
qed

lemma computeLCA_set_eq:
  assumes "distinct xs" and "distinct ys" and "set xs = set ys"
  shows "mset (computeLCA xs) = mset (computeLCA ys)"
proof -
  have len: "length xs = length ys"
    using assms by (metis distinct_card)
  consider "length xs = 0" | "length xs = 1" | "length xs \<ge> 2" by linarith
  then show ?thesis
  proof cases
    case 1
    with len show ?thesis by simp
  next
    case 2
    then obtain x where "xs = [x]"
      by (cases xs) auto
    moreover from 2 len obtain y where "ys = [y]"
      by (cases ys) auto
    ultimately show ?thesis using assms(3) by simp
  next
    case 3
    from computeLCA_trie [OF 3] obtain L where
      L: "computeLCA xs = map (join ''/'') L" "distinct L" "\<forall>p \<in> set L. \<forall>s \<in> set p. goodSeg s"
         "set L = {p. topMarked (segments ` set xs) p}"
      by blast
    from 3 len have "length ys \<ge> 2" by simp
    from computeLCA_trie [OF this] obtain M where
      M: "computeLCA ys = map (join ''/'') M" "distinct M" "\<forall>p \<in> set M. \<forall>s \<in> set p. goodSeg s"
         "set M = {p. topMarked (segments ` set ys) p}"
      by blast
    have "set L = set M" using L(4) M(4) assms(3) by simp
    then have "mset L = mset M"
      using set_eq_iff_mset_eq_distinct [OF L(2) M(2)] by blast
    then show ?thesis
      using L(1) M(1) by simp
  qed
qed

lemma computeLCA_antichain:
  assumes "a \<in> set (computeLCA xs)" and "b \<in> set (computeLCA xs)"
  shows "\<not> strict_prefix (segments a) (segments b)"
proof -
  consider "length xs = 0" | "length xs = 1" | "length xs \<ge> 2" by linarith
  then show ?thesis
  proof cases
    case 1
    with assms show ?thesis by (simp add: computeLCA_def)
  next
    case 2
    then obtain x where "xs = [x]" by (cases xs) auto
    with assms show ?thesis by (simp add: computeLCA_def)
  next
    case 3
    from computeLCA_trie [OF 3] obtain L where
      L: "computeLCA xs = map (join ''/'') L" "\<forall>p \<in> set L. \<forall>s \<in> set p. goodSeg s"
         "set L = {p. topMarked (segments ` set xs) p}"
      by blast
    from assms L(1) obtain p q where p: "p \<in> set L" "a = join ''/'' p"
      and q: "q \<in> set L" "b = join ''/'' q"
      by auto
    have sa: "segments a = p" and sb: "segments b = q"
      using p q L(2) by (simp_all add: segments_join)
    show ?thesis
    proof
      assume "strict_prefix (segments a) (segments b)"
      then have "strict_prefix p q" by (simp add: sa sb)
      moreover have "topMarked (segments ` set xs) p" "topMarked (segments ` set xs) q"
        using p(1) q(1) L(3) by auto
      ultimately show False
        by (auto simp: topMarked_def)
    qed
  qed
qed

section \<open>Claim about computeLCA\<close>

text \<open>
  C7. Two insertion orders of the same set of directory paths give the same LCA paths:
  the arrays returned hold the same paths, each once (the order of the array follows the
  order of insertion, so the results are equal as sets of paths, which is how the claim
  writes them). No path returned is a strict prefix, segment by segment, of another path
  returned. For a/b, a/c, a/d the result is a alone, and src/graph and src/graph-store are
  different segments: their result is src.
\<close>

theorem computeLCA_order_independent:
  assumes "distinct xs" and "distinct ys" and "set xs = set ys"
  shows "mset (computeLCA xs) = mset (computeLCA ys)
       \<and> (\<forall>a \<in> set (computeLCA xs). \<forall>b \<in> set (computeLCA xs).
             \<not> strict_prefix (segments a) (segments b))
       \<and> computeLCA [''a/b'', ''a/c'', ''a/d''] = [''a'']
       \<and> computeLCA [''src/graph'', ''src/graph-store''] = [''src'']"
proof (intro conjI ballI)
  show "mset (computeLCA xs) = mset (computeLCA ys)"
    using assms by (rule computeLCA_set_eq)
  show "\<not> strict_prefix (segments a) (segments b)"
    if "a \<in> set (computeLCA xs)" "b \<in> set (computeLCA xs)" for a b
    using that by (rule computeLCA_antichain)
  show "computeLCA [''a/b'', ''a/c'', ''a/d''] = [''a'']"
    by code_simp
  show "computeLCA [''src/graph'', ''src/graph-store''] = [''src'']"
    by code_simp
qed

lemma computeLCA_exDirs:
  "computeLCA exDirs = [''src/graph'', ''tests/encoder'']"
  "computeLCA exDirsPermuted = [''tests/encoder'', ''src/graph'']"
  by code_simp+

theorem computeLCA_order_independent_witness:
  "distinct exDirs \<and> distinct exDirsPermuted \<and> set exDirs = set exDirsPermuted
   \<and> mset (computeLCA exDirs) = mset (computeLCA exDirsPermuted)
   \<and> computeLCA exDirs = [''src/graph'', ''tests/encoder'']
   \<and> computeLCA exDirsPermuted = [''tests/encoder'', ''src/graph'']
   \<and> \<not> strict_prefix (segments ''src/graph'') (segments ''tests/encoder'')"
proof -
  have h: "distinct exDirs" "distinct exDirsPermuted" "set exDirs = set exDirsPermuted"
    by (auto simp: exDirs_def exDirsPermuted_def)
  from computeLCA_order_independent [OF h] h computeLCA_exDirs show ?thesis
    by simp
qed

section \<open>Claim about artifact grounding\<close>

lemma getNode_None_iff: "getNode g h = None \<longleftrightarrow> \<not> hasNode g h"
proof (cases "hasNode g h")
  case True
  then have "h \<in> fst ` set (nodes g)" by (simp add: hasNode_def)
  then have "map_of (nodes g) h \<noteq> None" by (simp add: map_of_eq_None_iff)
  with True show ?thesis by (simp add: getNode_def)
next
  case False
  then show ?thesis by (simp add: getNode_def)
qed

lemma groundedNode_fields:
  "node_id (groundedNode g h n0) = node_id n0"
  "node_type (groundedNode g h n0) = node_type n0"
  "isLowLevelNode (groundedNode g h n0) = isLowLevelNode n0"
  "isHighLevelNode (groundedNode g h n0) = isHighLevelNode n0"
  by (simp_all add: groundedNode_def Let_def isLowLevelNode_def isHighLevelNode_def)

lemma high_not_low: "isHighLevelNode n \<longleftrightarrow> \<not> isLowLevelNode n"
  by (cases "node_type n") (simp_all add: isHighLevelNode_def isLowLevelNode_def)

lemma groundInv_refl: "groundInv g g"
  by (simp add: groundInv_def)

lemma groundInv_hasNode: "groundInv g0 g \<Longrightarrow> hasNode g h = hasNode g0 h"
proof -
  assume "groundInv g0 g"
  then have "map fst (nodes g) = map fst (nodes g0)" by (simp add: groundInv_def)
  then have "set (map fst (nodes g)) = set (map fst (nodes g0))" by simp
  then show ?thesis by (simp add: hasNode_def)
qed

lemma groundInv_node:
  assumes "groundInv g0 g" and "getNode g h = Some n"
  shows "\<exists>n0. getNode g0 h = Some n0 \<and> node_id n = node_id n0
           \<and> isLowLevelNode n = isLowLevelNode n0
           \<and> (isLowLevelNode n0 \<longrightarrow> n = n0) \<and> (n = n0 \<or> n = groundedNode g0 h n0)"
proof -
  have "hasNode g0 h"
    using assms getNode_None_iff [of g h] groundInv_hasNode [OF assms(1), of h] by simp
  then obtain n0 where n0: "getNode g0 h = Some n0"
    using getNode_None_iff [of g0 h] by (cases "getNode g0 h") simp_all
  from assms(1) n0 have "getNode g h = Some n0 \<or> (isHighLevelNode n0 \<and> getNode g h = Some (groundedNode g0 h n0))"
    unfolding groundInv_def by blast
  then show ?thesis
  proof
    assume "getNode g h = Some n0"
    with assms(2) n0 show ?thesis by simp
  next
    assume a: "isHighLevelNode n0 \<and> getNode g h = Some (groundedNode g0 h n0)"
    then have "n = groundedNode g0 h n0" using assms(2) by simp
    moreover have "\<not> isLowLevelNode n0" using a by (simp add: high_not_low)
    ultimately show ?thesis using n0 by (simp add: groundedNode_fields)
  qed
qed

lemma groundInv_node0:
  assumes "groundInv g0 g" and "getNode g0 h = Some n0"
  shows "\<exists>n. getNode g h = Some n \<and> node_id n = node_id n0
           \<and> isLowLevelNode n = isLowLevelNode n0
           \<and> (isLowLevelNode n0 \<longrightarrow> n = n0) \<and> (n = n0 \<or> n = groundedNode g0 h n0)"
proof -
  from assms have "getNode g h = Some n0 \<or> (isHighLevelNode n0 \<and> getNode g h = Some (groundedNode g0 h n0))"
    unfolding groundInv_def by blast
  then show ?thesis
  proof
    assume "getNode g h = Some n0"
    then show ?thesis by simp
  next
    assume a: "isHighLevelNode n0 \<and> getNode g h = Some (groundedNode g0 h n0)"
    moreover have "\<not> isLowLevelNode n0" using a by (simp add: high_not_low)
    ultimately show ?thesis by (simp add: groundedNode_fields)
  qed
qed

lemma groundInv_node_id: "groundInv g0 g \<Longrightarrow> map_option node_id (getNode g h) = map_option node_id (getNode g0 h)"
proof (cases "getNode g0 h")
  case None
  assume "groundInv g0 g"
  then have "getNode g h = None"
    using None getNode_None_iff [of g h] getNode_None_iff [of g0 h] groundInv_hasNode [of g0 g h]
    by simp
  with None show ?thesis by simp
next
  case (Some n0)
  assume "groundInv g0 g"
  from groundInv_node0 [OF this Some] Some show ?thesis by auto
qed

lemma map_map_filter: "map h (List.map_filter f xs) = List.map_filter (\<lambda>x. map_option h (f x)) xs"
  by (induction xs) (auto simp: List.map_filter_simps split: option.splits)

lemma groundInv_outEdges: "groundInv g0 g \<Longrightarrow> getOutEdges g v ty = getOutEdges g0 v ty"
  using groundInv_hasNode [of g0 g v]
  by (simp add: getOutEdges_def getEdges_def groundInv_def)

lemma groundInv_inEdges: "groundInv g0 g \<Longrightarrow> getInEdges g v ty = getInEdges g0 v ty"
  using groundInv_hasNode [of g0 g v]
  by (simp add: getInEdges_def getEdges_def groundInv_def)

lemma groundInv_children_ids:
  assumes "groundInv g0 g"
  shows "map node_id (getChildren g v) = map node_id (getChildren g0 v)"
proof -
  have "List.map_filter (\<lambda>e. map_option node_id (getNode g (target e))) es
        = List.map_filter (\<lambda>e. map_option node_id (getNode g0 (target e))) es" for es
    by (simp only: groundInv_node_id [OF assms])
  then show ?thesis
    by (simp only: getChildren_def map_map_filter groundInv_outEdges [OF assms])
qed

lemma groundInv_parent:
  assumes "groundInv g0 g"
  shows "getParent g h = None \<longleftrightarrow> getParent g0 h = None"
proof (cases "getInEdges g0 h (Some Functional)")
  case Nil
  then show ?thesis by (simp add: getParent_def groundInv_inEdges [OF assms])
next
  case (Cons e es)
  have "getNode g (source e) = None \<longleftrightarrow> getNode g0 (source e) = None"
    using groundInv_hasNode [OF assms] by (simp add: getNode_None_iff)
  with Cons show ?thesis by (simp add: getParent_def groundInv_inEdges [OF assms])
qed

lemma covers_low:
  assumes "getNode g v = Some n" and "isLowLevelNode n"
  shows "{d. covers g v d}
         = (case metadata n of
              None \<Rightarrow> {}
            | Some m \<Rightarrow> (case path m of None \<Rightarrow> {} | Some p \<Rightarrow> if p = [] then {} else {dirname p}))"
proof (intro set_eqI iffI)
  fix d
  assume "d \<in> {d. covers g v d}"
  then have "covers g v d" by simp
  then show "d \<in> (case metadata n of
              None \<Rightarrow> {}
            | Some m \<Rightarrow> (case path m of None \<Rightarrow> {} | Some p \<Rightarrow> if p = [] then {} else {dirname p}))"
    using assms by (cases rule: covers.cases) auto
next
  fix d
  assume d: "d \<in> (case metadata n of
              None \<Rightarrow> {}
            | Some m \<Rightarrow> (case path m of None \<Rightarrow> {} | Some p \<Rightarrow> if p = [] then {} else {dirname p}))"
  then obtain m p where "metadata n = Some m" "path m = Some p" "p \<noteq> []" "d = dirname p"
    by (auto split: option.splits if_splits)
  with assms have "covers g v d" by (simp add: covers_leaf)
  then show "d \<in> {d. covers g v d}" by simp
qed

lemma covers_high:
  assumes "getNode g v = Some n" and "\<not> isLowLevelNode n"
  shows "{d. covers g v d} = (\<Union>i \<in> set (map node_id (getChildren g v)). {d. covers g i d})"
proof (intro set_eqI iffI)
  fix d
  assume "d \<in> {d. covers g v d}"
  then have "covers g v d" by simp
  then show "d \<in> (\<Union>i \<in> set (map node_id (getChildren g v)). {d. covers g i d})"
    using assms by (cases rule: covers.cases) auto
next
  fix d
  assume "d \<in> (\<Union>i \<in> set (map node_id (getChildren g v)). {d. covers g i d})"
  then obtain c where "c \<in> set (getChildren g v)" "covers g (node_id c) d" by auto
  with assms have "covers g v d" by (rule covers_child)
  then show "d \<in> {d. covers g v d}" by simp
qed

lemma covers_missing: "getNode g v = None \<Longrightarrow> {d. covers g v d} = {}"
  by (auto elim: covers.cases)

lemma below_cases:
  assumes "below g v h"
  shows "h = v \<or> (\<exists>n i. getNode g v = Some n \<and> \<not> isLowLevelNode n
                      \<and> i \<in> set (map node_id (getChildren g v)) \<and> below g i h)"
  using assms by (cases rule: below.cases) auto

lemma foldl_setAdd: "set (foldl setAdd acc xs) = set acc \<union> set xs"
  by (induction xs arbitrary: acc) (auto simp: setAdd_def)

lemma foldl_setAdd_distinct: "distinct acc \<Longrightarrow> distinct (foldl setAdd acc xs)"
  by (induction xs arbitrary: acc) (auto simp: setAdd_def)

lemma dirnameLoop_pos: "dirnameLoop p i m = Some e \<Longrightarrow> 0 < e"
  by (induction p i m rule: dirnameLoop.induct) (auto split: if_splits)

lemma segments_nonempty:
  assumes "s \<noteq> []" and "hd s \<noteq> CHR ''/''"
  shows "segments s \<noteq> []"
proof -
  obtain x xs where s: "s = x # xs" using assms(1) by (cases s) auto
  obtain a rest where sp: "split (CHR ''/'') xs = a # rest"
    using split_not_Nil [of "CHR ''/''" xs] by (cases "split (CHR ''/'') xs") auto
  have "split (CHR ''/'') s = (x # a) # rest"
    using assms(2) s sp by simp
  then show ?thesis by (simp add: segments_def)
qed

lemma dirname_relative:
  assumes "p \<noteq> []" and "hd p \<noteq> CHR ''/''"
  shows "segments (dirname p) \<noteq> []"
proof (cases "dirnameLoop p (length p - 1) True")
  case None
  then have "dirname p = ''.''"
    using assms by (simp add: dirname_def)
  then show ?thesis by (simp add: segments_def)
next
  case (Some e)
  then have e: "0 < e" by (rule dirnameLoop_pos)
  have d: "dirname p = take e p"
    using assms Some by (simp add: dirname_def)
  have "take e p \<noteq> []" "hd (take e p) = hd p"
    using e assms(1) by (cases p; cases e; simp)+
  then show ?thesis
    using assms(2) d segments_nonempty [of "take e p"] by simp
qed

lemma covers_segments: "covers g v d \<Longrightarrow> relativePaths g \<Longrightarrow> segments d \<noteq> []"
proof (induction rule: covers.induct)
  case (covers_leaf g v n m p)
  then have "hd p \<noteq> CHR ''/''"
    unfolding relativePaths_def by blast
  with covers_leaf(5) show ?case by (rule dirname_relative)
next
  case (covers_child g v n c d)
  then show ?case by simp
qed

lemma computeLCA_nonempty:
  assumes "ds \<noteq> []" and "\<forall>d \<in> set ds. segments d \<noteq> []"
  shows "computeLCA ds \<noteq> []"
proof -
  consider "length ds = 1" | "length ds \<ge> 2"
    using assms(1) by (cases ds; cases "tl ds") auto
  then show ?thesis
  proof cases
    case 1
    with assms(1) show ?thesis by (simp add: computeLCA_def)
  next
    case 2
    from computeLCA_trie [OF 2] obtain L where
      L: "computeLCA ds = map (join ''/'') L" "set L = {p. topMarked (segments ` set ds) p}"
      by blast
    obtain d where d: "d \<in> set ds" using assms(1) by (cases ds) auto
    then have "segments d \<in> segments ` set ds" "segments d \<noteq> []"
      using assms(2) by simp_all
    then obtain p where "topMarked (segments ` set ds) p"
      using topMarked_exists by blast
    then have "p \<in> set L" using L(2) by simp
    then have "L \<noteq> []" by auto
    then show ?thesis using L(1) by simp
  qed
qed

lemma sort_computeLCA:
  assumes "distinct xs" and "distinct ys" and "set xs = set ys"
  shows "sort (computeLCA xs) = sort (computeLCA ys)"
    and "length (computeLCA xs) = length (computeLCA ys)"
proof -
  have m: "mset (computeLCA xs) = mset (computeLCA ys)"
    using assms by (rule computeLCA_set_eq)
  have "mset (sort (computeLCA ys)) = mset (computeLCA xs)"
    using m by simp
  then show "sort (computeLCA xs) = sort (computeLCA ys)"
    by (rule properties_for_sort) simp
  show "length (computeLCA xs) = length (computeLCA ys)"
    using m by (rule mset_eq_length)
qed

lemma groundedMetadata_idem:
  "groundedMetadata (n\<lparr>metadata := Some (groundedMetadata n p s)\<rparr>) p s = groundedMetadata n p s"
  by (cases s; cases "metadata n") (simp_all add: groundedMetadata_def Let_def split: option.splits)

lemma mergeNodeAttributes_metadata:
  "mergeNodeAttributes n (metadataUpdate m) = n\<lparr>metadata := Some m\<rparr>"
  by (simp add: mergeNodeAttributes_def metadataUpdate_def)

lemma groundedNode_idem:
  "(groundedNode g h n0)\<lparr>metadata := Some (groundedMetadata (groundedNode g h n0)
       (hd (sort (computeLCA (sorted_list_of_set {d. covers g h d}))))
       (if length (computeLCA (sorted_list_of_set {d. covers g h d})) > 1
        then Some (sort (computeLCA (sorted_list_of_set {d. covers g h d}))) else None))\<rparr>
   = groundedNode g h n0"
  unfolding groundedNode_def Let_def
  by (simp add: groundedMetadata_idem)

text \<open>The metadata that \<open>propagate\<close> writes, from the directories it collected.\<close>

lemma propagate_metadata:
  assumes ds: "distinct ds" "set ds = {d. covers g0 h d}" "computeLCA ds \<noteq> []"
  shows "(if length (computeLCA ds) = 1
          then groundedMetadata n (computeLCA ds ! 0) None
          else groundedMetadata n (sort (computeLCA ds) ! 0) (Some (sort (computeLCA ds))))
         = groundedMetadata n (hd (sort (computeLCA (sorted_list_of_set {d. covers g0 h d}))))
             (if length (computeLCA (sorted_list_of_set {d. covers g0 h d})) > 1
              then Some (sort (computeLCA (sorted_list_of_set {d. covers g0 h d}))) else None)"
proof -
  let ?c = "sorted_list_of_set {d. covers g0 h d}"
  have fin: "finite {d. covers g0 h d}"
    using ds(2) by (metis List.finite_set)
  have c: "distinct ?c" "set ?c = set ds"
    using fin ds(2) by simp_all
  have s: "sort (computeLCA ?c) = sort (computeLCA ds)"
    and l: "length (computeLCA ?c) = length (computeLCA ds)"
    using sort_computeLCA [OF c(1) ds(1) c(2)] by simp_all
  show ?thesis
  proof (cases "length (computeLCA ds) = 1")
    case True
    then obtain x where x: "computeLCA ds = [x]"
      by (cases "computeLCA ds") auto
    then show ?thesis by (simp add: s l)
  next
    case False
    with ds(3) have g: "length (computeLCA ds) > 1"
      by (cases "computeLCA ds") auto
    then have "length (sort (computeLCA ds)) > 1" by simp
    then have "sort (computeLCA ds) \<noteq> []" by (cases "sort (computeLCA ds)") simp_all
    then have "sort (computeLCA ds) ! 0 = hd (sort (computeLCA ds))"
      by (simp add: hd_conv_nth)
    with False g show ?thesis by (simp add: s l)
  qed
qed

lemma propagated_refl: "groundInv g0 g \<Longrightarrow> propagated g0 g g {}"
  by (simp add: propagated_def)

lemma propagated_trans:
  assumes "propagated g0 g g1 V" and "propagated g0 g1 g2 W"
  shows "propagated g0 g g2 (V \<union> W)"
  unfolding propagated_def
proof (intro conjI allI ballI impI)
  show "groundInv g0 g2" using assms(2) by (simp add: propagated_def)
  show "groundedAt g0 g2 h" if "groundedAt g0 g h" for h
    using that assms by (simp add: propagated_def)
  show "groundedAt g0 g2 h"
    if "v \<in> V \<union> W" "below g0 v h" "getNode g0 h = Some n" "isHighLevelNode n" "\<exists>d. covers g0 h d"
    for v h n
  proof (cases "v \<in> V")
    case True
    with that assms(1) have "groundedAt g0 g1 h"
      unfolding propagated_def by blast
    with assms(2) show ?thesis by (simp add: propagated_def)
  next
    case False
    with that have "v \<in> W" by simp
    with that assms(2) show ?thesis
      unfolding propagated_def by blast
  qed
qed

lemma propagated_inv: "propagated g0 g g' V \<Longrightarrow> groundInv g0 g'"
  by (simp add: propagated_def)

lemma ground_step:
  assumes inv: "groundInv g0 g1"
    and n0: "getNode g0 v = Some n0" "isHighLevelNode n0"
    and node: "node = n0 \<or> node = groundedNode g0 v n0"
    and m: "m = groundedMetadata node (hd (sort (computeLCA (sorted_list_of_set {d. covers g0 v d}))))
             (if length (computeLCA (sorted_list_of_set {d. covers g0 v d})) > 1
              then Some (sort (computeLCA (sorted_list_of_set {d. covers g0 v d}))) else None)"
  shows "propagated g0 g1 (snd (updateNode v (metadataUpdate m) g1)) {}"
    and "groundedAt g0 (snd (updateNode v (metadataUpdate m) g1)) v"
proof -
  let ?g = "snd (updateNode v (metadataUpdate m) g1)"
  let ?P = "hd (sort (computeLCA (sorted_list_of_set {d. covers g0 v d})))"
  let ?S = "if length (computeLCA (sorted_list_of_set {d. covers g0 v d})) > 1
            then Some (sort (computeLCA (sorted_list_of_set {d. covers g0 v d}))) else None"
  have gn: "groundedNode g0 v n0 = n0\<lparr>metadata := Some (groundedMetadata n0 ?P ?S)\<rparr>"
    by (simp add: groundedNode_def Let_def)
  have m0: "m = groundedMetadata n0 ?P ?S"
    using node
  proof
    assume "node = n0"
    with m show ?thesis by simp
  next
    assume "node = groundedNode g0 v n0"
    with m gn show ?thesis by (simp only: groundedMetadata_idem)
  qed
  obtain n1 where n1: "getNode g1 v = Some n1" "n1 = n0 \<or> n1 = groundedNode g0 v n0"
    using groundInv_node0 [OF inv n0(1)] by blast
  have "n1\<lparr>metadata := Some m\<rparr> = groundedNode g0 v n0"
    using n1(2) by (auto simp: gn m0)
  then have at_v: "getNode ?g v = Some (groundedNode g0 v n0)"
    using n1(1) by (simp add: getNode_updateNode mergeNodeAttributes_metadata)
  have other: "getNode ?g h = getNode g1 h" if "h \<noteq> v" for h
    using that by (simp add: getNode_updateNode)
  show at: "groundedAt g0 ?g v"
    using n0(1) at_v by (auto simp: groundedAt_def)
  have inv': "groundInv g0 ?g"
    unfolding groundInv_def
  proof (intro conjI allI impI)
    show "edges ?g = edges g0"
      using inv by (simp add: updateNode_def groundInv_def)
    show "map fst (nodes ?g) = map fst (nodes g0)"
      using inv by (simp only: keys_updateNode groundInv_def)
    show "getNode ?g h = Some k \<or> (isHighLevelNode k \<and> getNode ?g h = Some (groundedNode g0 h k))"
      if "getNode g0 h = Some k" for h k
    proof (cases "h = v")
      case True
      with that n0 at_v show ?thesis by simp
    next
      case False
      with that inv other [OF False] show ?thesis
        unfolding groundInv_def by simp
    qed
  qed
  have keep: "groundedAt g0 ?g h" if "groundedAt g0 g1 h" for h
  proof (cases "h = v")
    case True
    with at show ?thesis by simp
  next
    case False
    with that other [OF False] show ?thesis by (simp add: groundedAt_def)
  qed
  show "propagated g0 g1 ?g {}"
    using inv' keep by (simp add: propagated_def)
qed

lemma propagate_Suc_high:
  assumes "getNode g v = Some node" and "\<not> isLowLevelNode node"
    and "propagateChildren fuel g (getChildren g v) [] = Some (g1, ds)"
  shows "propagate (Suc fuel) g v =
           (if ds = [] \<or> computeLCA ds = [] then Some (g1, ds)
            else Some (snd (updateNode v (metadataUpdate
                     (if length (computeLCA ds) = 1
                      then groundedMetadata node (computeLCA ds ! 0) None
                      else groundedMetadata node (sort (computeLCA ds) ! 0) (Some (sort (computeLCA ds)))))
                   g1), ds))"
proof -
  have h: "isHighLevelNode node" using assms(2) by (simp add: high_not_low)
  have "length (computeLCA ds) = 1 \<or> length (computeLCA ds) > 1" if "computeLCA ds \<noteq> []"
    using that by (cases "computeLCA ds"; cases "tl (computeLCA ds)") auto
  then show ?thesis
    using assms h by (auto simp: Let_def)
qed

lemma propagate_correct:
  "groundInv g0 g \<Longrightarrow> rank v < fuel \<Longrightarrow> acyclicBy rank g0 \<Longrightarrow> relativePaths g0 \<Longrightarrow>
     \<exists>g' ds. propagate fuel g v = Some (g', ds) \<and> propagated g0 g g' {v}
       \<and> distinct ds \<and> set ds = {d. covers g0 v d}"
  "groundInv g0 g \<Longrightarrow> \<forall>c \<in> set cs. rank (node_id c) < fuel \<Longrightarrow> distinct acc \<Longrightarrow>
   acyclicBy rank g0 \<Longrightarrow> relativePaths g0 \<Longrightarrow>
     \<exists>g' ds. propagateChildren fuel g cs acc = Some (g', ds)
       \<and> propagated g0 g g' (set (map node_id cs))
       \<and> distinct ds \<and> set ds = set acc \<union> (\<Union>i \<in> set (map node_id cs). {d. covers g0 i d})"
proof (induction fuel g v and fuel g cs acc rule: propagate_propagateChildren.induct)
  case (1 g nodeId)
  then show ?case by simp
next
  case (2 fuel g v)
  note inv = "2.prems"(1)
  show ?case
  proof (cases "getNode g v")
    case None
    then have n0: "getNode g0 v = None"
      using groundInv_hasNode [OF inv, of v] by (simp add: getNode_None_iff)
    have "propagated g0 g g {v}"
      unfolding propagated_def
    proof (intro conjI allI ballI impI)
      show "groundInv g0 g" by (rule inv)
      show "groundedAt g0 g h" if "groundedAt g0 g h" for h by (rule that)
      show "groundedAt g0 g h" if "u \<in> {v}" "below g0 u h" "getNode g0 h = Some n" for u h n
      proof -
        from that(1,2) have "below g0 v h" by simp
        from below_cases [OF this] n0 have "h = v" by auto
        with that(3) n0 show ?thesis by simp
      qed
    qed
    then show ?thesis
      using None covers_missing [OF n0] by simp
  next
    case (Some node)
    from groundInv_node [OF inv Some] obtain n0 where
      n0: "getNode g0 v = Some n0" and ll: "isLowLevelNode node = isLowLevelNode n0"
      and same: "isLowLevelNode n0 \<longrightarrow> node = n0"
      and alt: "node = n0 \<or> node = groundedNode g0 v n0"
      by blast
    show ?thesis
    proof (cases "isLowLevelNode node")
      case True
      then have nn: "node = n0" and l0: "isLowLevelNode n0" using ll same by simp_all
      have "propagated g0 g g {v}"
        unfolding propagated_def
      proof (intro conjI allI ballI impI)
        show "groundInv g0 g" by (rule inv)
        show "groundedAt g0 g h" if "groundedAt g0 g h" for h by (rule that)
        show "groundedAt g0 g h"
          if "u \<in> {v}" "below g0 u h" "getNode g0 h = Some n" "isHighLevelNode n" for u h n
        proof -
          from that(1,2) have "below g0 v h" by simp
          from below_cases [OF this] n0 l0 have "h = v" by auto
          with that(3,4) n0 l0 show ?thesis by (simp add: high_not_low)
        qed
      qed
      moreover have "\<exists>ds. propagate (Suc fuel) g v = Some (g, ds) \<and> distinct ds
                       \<and> set ds = {d. covers g0 v d}"
        using Some True nn covers_low [OF n0 l0]
        by (auto split: option.splits)
      ultimately show ?thesis by blast
    next
      case False
      then have h0: "\<not> isLowLevelNode n0" using ll by simp
      have ids: "map node_id (getChildren g v) = map node_id (getChildren g0 v)"
        using inv by (rule groundInv_children_ids)
      have rk: "\<forall>c \<in> set (getChildren g v). rank (node_id c) < fuel"
      proof
        fix c
        assume "c \<in> set (getChildren g v)"
        then have "node_id c \<in> set (map node_id (getChildren g0 v))"
          using ids by (metis image_eqI set_map)
        then obtain c0 where "c0 \<in> set (getChildren g0 v)" "node_id c0 = node_id c"
          by auto
        then have "rank (node_id c) < rank v"
          using "2.prems"(3) n0 h0 unfolding acyclicBy_def by metis
        with "2.prems"(2) show "rank (node_id c) < fuel" by simp
      qed
      from "2.IH" [OF Some False inv rk _ "2.prems"(3,4)] obtain g1 ds where
        ch: "propagateChildren fuel g (getChildren g v) [] = Some (g1, ds)"
        and p1: "propagated g0 g g1 (set (map node_id (getChildren g v)))"
        and dd: "distinct ds"
        and sd: "set ds = set [] \<union> (\<Union>i \<in> set (map node_id (getChildren g v)). {d. covers g0 i d})"
        by auto
      have cov: "set ds = {d. covers g0 v d}"
        using sd ids covers_high [OF n0 h0] by simp
      have inv1: "groundInv g0 g1" using p1 by (rule propagated_inv)
      note eq = propagate_Suc_high [OF Some False ch]
      have below_v: "groundedAt g0 g' h"
        if pg: "propagated g0 g g' (set (map node_id (getChildren g v)))"
          and at: "(\<exists>d. covers g0 v d) \<longrightarrow> groundedAt g0 g' v"
          and b: "below g0 v h" "getNode g0 h = Some n" "isHighLevelNode n" "\<exists>d. covers g0 h d"
        for g' h n
      proof -
        from below_cases [OF b(1)] show ?thesis
        proof
          assume "h = v"
          with at b(4) show ?thesis by simp
        next
          assume "\<exists>n i. getNode g0 v = Some n \<and> \<not> isLowLevelNode n
                    \<and> i \<in> set (map node_id (getChildren g0 v)) \<and> below g0 i h"
          then obtain i where "i \<in> set (map node_id (getChildren g v))" "below g0 i h"
            using ids by auto
          with pg b(2,3,4) show ?thesis
            unfolding propagated_def by blast
        qed
      qed
      show ?thesis
      proof (cases "ds = []")
        case True
        have "propagated g0 g g1 {v}"
          unfolding propagated_def
        proof (intro conjI allI ballI impI)
          show "groundInv g0 g1" by (rule inv1)
          show "groundedAt g0 g1 h" if "groundedAt g0 g h" for h
            using that p1 by (simp add: propagated_def)
          show "groundedAt g0 g1 h"
            if "u \<in> {v}" "below g0 u h" "getNode g0 h = Some n" "isHighLevelNode n"
              "\<exists>d. covers g0 h d" for u h n
          proof (rule below_v [OF p1 _ _ that(3,4,5)])
            show "(\<exists>d. covers g0 v d) \<longrightarrow> groundedAt g0 g1 v"
              using cov True by auto
            show "below g0 v h" using that(1,2) by simp
          qed
        qed
        with eq True dd cov show ?thesis by simp
      next
        case ne: False
        have "\<forall>d \<in> set ds. segments d \<noteq> []"
          using cov covers_segments [OF _ "2.prems"(4)] by auto
        with ne have lne: "computeLCA ds \<noteq> []" by (rule computeLCA_nonempty)
        let ?m = "if length (computeLCA ds) = 1
                  then groundedMetadata node (computeLCA ds ! 0) None
                  else groundedMetadata node (sort (computeLCA ds) ! 0) (Some (sort (computeLCA ds)))"
        let ?g' = "snd (updateNode v (metadataUpdate ?m) g1)"
        have hl: "isHighLevelNode n0" using h0 by (simp add: high_not_low)
        have mm: "?m = groundedMetadata node
                    (hd (sort (computeLCA (sorted_list_of_set {d. covers g0 v d}))))
                    (if length (computeLCA (sorted_list_of_set {d. covers g0 v d})) > 1
                     then Some (sort (computeLCA (sorted_list_of_set {d. covers g0 v d}))) else None)"
          using propagate_metadata [OF dd cov lne, of node] .
        note st = ground_step [OF inv1 n0 hl alt mm]
        have p2: "propagated g0 g ?g' (set (map node_id (getChildren g v)))"
          using propagated_trans [OF p1 st(1)] by simp
        have "propagated g0 g ?g' {v}"
          unfolding propagated_def
        proof (intro conjI allI ballI impI)
          show "groundInv g0 ?g'" using p2 by (rule propagated_inv)
          show "groundedAt g0 ?g' h" if "groundedAt g0 g h" for h
            using that p2 by (simp add: propagated_def)
          show "groundedAt g0 ?g' h"
            if "u \<in> {v}" "below g0 u h" "getNode g0 h = Some n" "isHighLevelNode n"
              "\<exists>d. covers g0 h d" for u h n
          proof (rule below_v [OF p2 _ _ that(3,4,5)])
            show "(\<exists>d. covers g0 v d) \<longrightarrow> groundedAt g0 ?g' v"
              using st(2) by simp
            show "below g0 v h" using that(1,2) by simp
          qed
        qed
        moreover have "propagate (Suc fuel) g v = Some (?g', ds)"
          using eq ne lne by simp
        ultimately show ?thesis
          using dd cov by blast
      qed
    qed
  qed
next
  case (3 fuel g dirSet)
  then show ?case by (simp add: propagated_refl)
next
  case (4 fuel g child rest dirSet)
  have r1: "rank (node_id child) < fuel" using "4.prems"(2) by simp
  from "4.IH"(1) [OF "4.prems"(1) r1 "4.prems"(4,5)] obtain g1 cd where
    c1: "propagate fuel g (node_id child) = Some (g1, cd)"
    and p1: "propagated g0 g g1 {node_id child}"
    and s1: "set cd = {d. covers g0 (node_id child) d}"
    by blast
  have inv1: "groundInv g0 g1" using p1 by (rule propagated_inv)
  have rr: "\<forall>c \<in> set rest. rank (node_id c) < fuel" using "4.prems"(2) by simp
  have da: "distinct (foldl setAdd dirSet cd)"
    using "4.prems"(3) by (rule foldl_setAdd_distinct)
  from "4.IH"(2) [OF c1 refl inv1 rr da "4.prems"(4,5)] obtain g2 ds where
    c2: "propagateChildren fuel g1 rest (foldl setAdd dirSet cd) = Some (g2, ds)"
    and p2: "propagated g0 g1 g2 (set (map node_id rest))"
    and d2: "distinct ds"
    and s2: "set ds = set (foldl setAdd dirSet cd) \<union> (\<Union>i \<in> set (map node_id rest). {d. covers g0 i d})"
    by blast
  have "propagated g0 g g2 ({node_id child} \<union> set (map node_id rest))"
    using p1 p2 by (rule propagated_trans)
  then have "propagated g0 g g2 (set (map node_id (child # rest)))" by simp
  moreover have "propagateChildren fuel g (child # rest) dirSet = Some (g2, ds)"
    using c1 c2 by simp
  moreover have "set ds = set dirSet \<union> (\<Union>i \<in> set (map node_id (child # rest)). {d. covers g0 i d})"
    using s2 s1 by (auto simp: foldl_setAdd)
  ultimately show ?case using d2 by blast
qed

lemma below_trans: "below g a b \<Longrightarrow> below g b c \<Longrightarrow> below g a c"
  by (induction rule: below.induct) (auto intro: below.intros)

lemma getParent_Some:
  assumes "getParent g h = Some p" and "getNode g h = Some n"
  shows "\<exists>e. e \<in> set (getFunctionalEdges g) \<and> target e = h \<and> getNode g (source e) = Some p
           \<and> n \<in> set (getChildren g (source e))"
proof -
  from assms(1) obtain e es where ie: "getInEdges g h (Some Functional) = e # es"
    and p: "getNode g (source e) = Some p"
    by (auto simp: getParent_def split: list.splits)
  have "e \<in> set (getInEdges g h (Some Functional))" using ie by simp
  then have e: "e \<in> set (getEdges g)" "target e = h" "edge_type e = Functional"
    by (auto simp: getInEdges_def split: if_splits)
  have hs: "hasNode g (source e)" using p by (simp add: getNode_def split: if_splits)
  have oe: "e \<in> set (getOutEdges g (source e) (Some Functional))"
    using e hs by (simp add: getOutEdges_def)
  have "n \<in> set (getChildren g (source e))"
    unfolding getChildren_def List.map_filter_def
    using oe assms(2) e(2) by (force simp: image_iff)
  moreover have "e \<in> set (getFunctionalEdges g)"
    using e by (simp add: getFunctionalEdges_def isFunctionalEdge_def)
  ultimately show ?thesis using e(2) p by blast
qed

lemma getNode_key: "getNode g h = Some n \<Longrightarrow> (h, n) \<in> set (nodes g)"
  by (auto simp: getNode_def split: if_splits dest: map_of_SomeD)

lemma root_above:
  assumes ids: "idsOk g" and hh: "highAboveHigh g" and ac: "acyclicBy rank g"
    and bound: "\<forall>k \<in> fst ` set (nodes g). rank k < fuel"
  shows "getNode g h = Some n \<Longrightarrow> isHighLevelNode n \<Longrightarrow>
         \<exists>r. r \<in> set (getHighLevelNodes g) \<and> getParent g (node_id r) = None \<and> below g (node_id r) h"
proof (induction "fuel - rank h" arbitrary: h n rule: less_induct)
  case less
  have idn: "node_id n = h" using ids less.prems(1) by (rule getNode_idsOk)
  show ?case
  proof (cases "getParent g h")
    case None
    have "n \<in> set (getHighLevelNodes g)"
      using getNode_key [OF less.prems(1)] less.prems(2)
      by (force simp: getHighLevelNodes_def getNodes_def image_iff)
    with None idn show ?thesis using below_self by metis
  next
    case (Some p)
    from getParent_Some [OF Some less.prems(1)] obtain e where
      e: "e \<in> set (getFunctionalEdges g)" "target e = h" "getNode g (source e) = Some p"
         "n \<in> set (getChildren g (source e))"
      by blast
    have ph: "isHighLevelNode p"
      using hh e(1,2,3) less.prems unfolding highAboveHigh_def by blast
    then have pl: "\<not> isLowLevelNode p" by (simp add: high_not_low)
    have "rank (node_id n) < rank (source e)"
      using ac e(3,4) pl unfolding acyclicBy_def by blast
    then have r1: "rank h < rank (source e)" using idn by simp
    have "source e \<in> fst ` set (nodes g)"
      using getNode_key [OF e(3)] by (force simp: image_iff)
    then have r2: "rank (source e) < fuel" using bound by blast
    have "fuel - rank (source e) < fuel - rank h" using r1 r2 by simp
    from less.hyps [OF this e(3) ph] obtain r where
      r: "r \<in> set (getHighLevelNodes g)" "getParent g (node_id r) = None"
         "below g (node_id r) (source e)"
      by blast
    have "below g (node_id n) h" using idn below_self by metis
    then have "below g (source e) h"
      using e(3) pl e(4) by (metis below_child)
    with r(3) have "below g (node_id r) h" by (rule below_trans)
    with r(1,2) show ?thesis by blast
  qed
qed

lemma groundLoop_correct:
  assumes ac: "acyclicBy rank g0" and rel: "relativePaths g0"
  shows "\<forall>n \<in> set ns. rank (node_id n) < fuel \<Longrightarrow> groundInv g0 g \<Longrightarrow>
         \<exists>g'. groundLoop fuel g ns = Some g'
           \<and> propagated g0 g g' (node_id ` {n \<in> set ns. getParent g0 (node_id n) = None})"
proof (induction ns arbitrary: g)
  case Nil
  then show ?case by (simp add: propagated_refl)
next
  case (Cons node rest)
  have rr: "\<forall>n \<in> set rest. rank (node_id n) < fuel" using Cons.prems(1) by simp
  show ?case
  proof (cases "getParent g0 (node_id node)")
    case None
    then have gp: "getParent g (node_id node) = None"
      using groundInv_parent [OF Cons.prems(2)] by simp
    have r1: "rank (node_id node) < fuel" using Cons.prems(1) by simp
    from propagate_correct(1) [OF Cons.prems(2) r1 ac rel] obtain g1 ds where
      c1: "propagate fuel g (node_id node) = Some (g1, ds)"
      and p1: "propagated g0 g g1 {node_id node}"
      by blast
    have inv1: "groundInv g0 g1" using p1 by (rule propagated_inv)
    from Cons.IH [OF rr inv1] obtain g2 where
      c2: "groundLoop fuel g1 rest = Some g2"
      and p2: "propagated g0 g1 g2 (node_id ` {n \<in> set rest. getParent g0 (node_id n) = None})"
      by blast
    have s: "node_id ` {n \<in> set (node # rest). getParent g0 (node_id n) = None}
             = {node_id node} \<union> node_id ` {n \<in> set rest. getParent g0 (node_id n) = None}"
      using None by auto
    have "propagated g0 g g2 (node_id ` {n \<in> set (node # rest). getParent g0 (node_id n) = None})"
      unfolding s using p1 p2 by (rule propagated_trans)
    moreover have "groundLoop fuel g (node # rest) = Some g2"
      using gp c1 c2 by simp
    ultimately show ?thesis by blast
  next
    case (Some p)
    then have "getParent g (node_id node) \<noteq> None"
      using groundInv_parent [OF Cons.prems(2)] by simp
    then obtain q where gp: "getParent g (node_id node) = Some q" by auto
    from Cons.IH [OF rr Cons.prems(2)] obtain g2 where
      c2: "groundLoop fuel g rest = Some g2"
      and p2: "propagated g0 g g2 (node_id ` {n \<in> set rest. getParent g0 (node_id n) = None})"
      by blast
    have s: "node_id ` {n \<in> set (node # rest). getParent g0 (node_id n) = None}
             = node_id ` {n \<in> set rest. getParent g0 (node_id n) = None}"
      using Some by auto
    have "groundLoop fuel g (node # rest) = Some g2"
      using gp c2 by simp
    with p2 s show ?thesis by simp
  qed
qed

lemma groundedMetadata_fields:
  "entityType (groundedMetadata n p s) = EModule"
  "path (groundedMetadata n p s) = Some p"
  "extra (groundedMetadata n p None) = (case metadata n of None \<Rightarrow> None | Some m \<Rightarrow> extra m)"
  "extraOf (Some (groundedMetadata n p None)) = extraOf (metadata n)"
  "extraOf (Some (groundedMetadata n p (Some ps)))
     = AList.update ''paths'' (JStrings ps) (extraOf (metadata n))"
  by (simp_all add: groundedMetadata_def extraOf_def Let_def split: option.splits)

lemma ground_grounds:
  assumes ids: "idsOk g" and ac: "acyclicBy rank g"
    and bound: "\<forall>k \<in> fst ` set (nodes g). rank k < fuel"
    and hh: "highAboveHigh g" and rel: "relativePaths g"
  shows "\<exists>g'. ground fuel g = Some g' \<and> groundInv g g'
           \<and> (\<forall>h n. getNode g h = Some n \<longrightarrow> isHighLevelNode n \<longrightarrow> (\<exists>d. covers g h d)
                 \<longrightarrow> getNode g' h = Some (groundedNode g h n))"
proof -
  have rk: "\<forall>n \<in> set (getHighLevelNodes g). rank (node_id n) < fuel"
  proof
    fix n
    assume "n \<in> set (getHighLevelNodes g)"
    then obtain k where k: "(k, n) \<in> set (nodes g)"
      by (auto simp: getHighLevelNodes_def getNodes_def)
    then have "node_id n = k" using ids by (auto simp: idsOk_def)
    moreover have "k \<in> fst ` set (nodes g)" using k by (force simp: image_iff)
    ultimately show "rank (node_id n) < fuel" using bound by blast
  qed
  from groundLoop_correct [OF ac rel rk groundInv_refl] obtain g' where
    run: "groundLoop fuel g (getHighLevelNodes g) = Some g'"
    and pr: "propagated g g g'
               (node_id ` {n \<in> set (getHighLevelNodes g). getParent g (node_id n) = None})"
    by blast
  have "getNode g' h = Some (groundedNode g h n)"
    if h: "getNode g h = Some n" "isHighLevelNode n" "\<exists>d. covers g h d" for h n
  proof -
    from root_above [OF ids hh ac bound h(1,2)] obtain r where
      r: "r \<in> set (getHighLevelNodes g)" "getParent g (node_id r) = None" "below g (node_id r) h"
      by blast
    then have "node_id r \<in> node_id ` {n \<in> set (getHighLevelNodes g). getParent g (node_id n) = None}"
      by blast
    with pr r(3) h have "groundedAt g g' h"
      unfolding propagated_def by blast
    with h(1) show ?thesis by (auto simp: groundedAt_def)
  qed
  moreover have "groundInv g g'" using pr by (rule propagated_inv)
  ultimately show ?thesis using run by (auto simp: ground_def)
qed

lemma exCrossCutting_nodes:
  "nodes exCrossCutting =
     [(''domain:CrossCutting'', exHigh ''domain:CrossCutting''),
      (''src/utils/helper.ts:file'', exFile ''src/utils/helper.ts''),
      (''tests/utils/helper.test.ts:file'', exFile ''tests/utils/helper.test.ts'')]"
  by code_simp

lemma exCrossCutting_edges:
  "getEdges exCrossCutting =
     [createFunctionalEdge ''domain:CrossCutting'' ''src/utils/helper.ts:file'' None None,
      createFunctionalEdge ''domain:CrossCutting'' ''tests/utils/helper.test.ts:file'' None None]"
  by code_simp

lemma exCrossCutting_children:
  "getChildren exCrossCutting ''domain:CrossCutting''
     = [exFile ''src/utils/helper.ts'', exFile ''tests/utils/helper.test.ts'']"
  by code_simp

lemma exCrossCutting_getNode:
  assumes "getNode exCrossCutting v = Some n"
  shows "(v, n) = (''domain:CrossCutting'', exHigh ''domain:CrossCutting'')
       \<or> (v, n) = (''src/utils/helper.ts:file'', exFile ''src/utils/helper.ts'')
       \<or> (v, n) = (''tests/utils/helper.test.ts:file'', exFile ''tests/utils/helper.test.ts'')"
  using getNode_key [OF assms] by (simp add: exCrossCutting_nodes)

lemma idsOk_exCrossCutting: "idsOk exCrossCutting"
  by (simp add: idsOk_def exCrossCutting_nodes exHigh_def exFile_def)

lemma acyclicBy_exCrossCutting: "acyclicBy exRank exCrossCutting"
  unfolding acyclicBy_def
proof (intro allI impI, elim conjE)
  fix v n c
  assume n: "getNode exCrossCutting v = Some n" and h: "\<not> isLowLevelNode n"
    and c: "c \<in> set (getChildren exCrossCutting v)"
  from exCrossCutting_getNode [OF n] h have v: "v = ''domain:CrossCutting''"
    by (auto simp: exFile_def isLowLevelNode_def)
  from c have "c = exFile ''src/utils/helper.ts'' \<or> c = exFile ''tests/utils/helper.test.ts''"
    unfolding v exCrossCutting_children by simp
  then show "exRank (node_id c) < exRank v"
    unfolding v by (auto simp: exFile_def exRank_def)
qed

lemma highAboveHigh_exCrossCutting: "highAboveHigh exCrossCutting"
  unfolding highAboveHigh_def
proof (intro allI impI, elim conjE)
  fix e p c
  assume e: "e \<in> set (getFunctionalEdges exCrossCutting)"
    and p: "getNode exCrossCutting (source e) = Some p"
  from e have "source e = ''domain:CrossCutting''"
    by (auto simp: getFunctionalEdges_def exCrossCutting_edges createFunctionalEdge_def
        isFunctionalEdge_def)
  with exCrossCutting_getNode [OF p] have "p = exHigh ''domain:CrossCutting''" by auto
  then show "isHighLevelNode p" by (simp add: exHigh_def isHighLevelNode_def)
qed

lemma relativePaths_exCrossCutting: "relativePaths exCrossCutting"
  unfolding relativePaths_def
proof (intro allI impI, elim conjE)
  fix v n m p
  assume n: "getNode exCrossCutting v = Some n" and l: "isLowLevelNode n"
    and m: "metadata n = Some m" "path m = Some p"
  from exCrossCutting_getNode [OF n] l
  have "n = exFile ''src/utils/helper.ts'' \<or> n = exFile ''tests/utils/helper.test.ts''"
    by (auto simp: exHigh_def isLowLevelNode_def)
  with m show "hd p \<noteq> CHR ''/''" by (auto simp: exFile_def)
qed

lemma covers_exCrossCutting:
  "{d. covers exCrossCutting ''domain:CrossCutting'' d} = set [''src/utils'', ''tests/utils'']"
proof -
  have n: "getNode exCrossCutting ''domain:CrossCutting'' = Some (exHigh ''domain:CrossCutting'')"
    by code_simp
  have h: "\<not> isLowLevelNode (exHigh ''domain:CrossCutting'')"
    by (simp add: exHigh_def isLowLevelNode_def)
  have f1: "getNode exCrossCutting ''src/utils/helper.ts:file'' = Some (exFile ''src/utils/helper.ts'')"
    by code_simp
  have f2: "getNode exCrossCutting ''tests/utils/helper.test.ts:file''
              = Some (exFile ''tests/utils/helper.test.ts'')"
    by code_simp
  have l: "isLowLevelNode (exFile p)" for p
    by (simp add: exFile_def isLowLevelNode_def)
  have d1: "dirname ''src/utils/helper.ts'' = ''src/utils''" by code_simp
  have d2: "dirname ''tests/utils/helper.test.ts'' = ''tests/utils''" by code_simp
  have c1: "{d. covers exCrossCutting ''src/utils/helper.ts:file'' d} = {''src/utils''}"
    unfolding covers_low [OF f1 l] by (simp add: exFile_def d1)
  have c2: "{d. covers exCrossCutting ''tests/utils/helper.test.ts:file'' d} = {''tests/utils''}"
    unfolding covers_low [OF f2 l] by (simp add: exFile_def d2)
  have i1: "node_id (exFile ''src/utils/helper.ts'') = ''src/utils/helper.ts:file''"
    by (simp add: exFile_def)
  have i2: "node_id (exFile ''tests/utils/helper.test.ts'') = ''tests/utils/helper.test.ts:file''"
    by (simp add: exFile_def)
  show ?thesis
    unfolding covers_high [OF n h] exCrossCutting_children
    by (simp add: i1 i2 c1 c2 insert_commute)
qed

lemma computeLCA_exCrossCutting:
  "computeLCA [''src/utils'', ''tests/utils''] = [''src/utils'', ''tests/utils'']"
  "sort [''src/utils'', ''tests/utils''] = [''src/utils'', ''tests/utils'']"
  by code_simp+

text \<open>
  C6. Let the functional hierarchy of \<open>g\<close> be well formed: every node carries its key as
  id, the Functional edges below HighLevel nodes have no cycle (\<open>rank\<close> decreases from a
  node to its children), the Functional parents of HighLevel nodes are HighLevel nodes,
  and the paths of the LowLevel nodes are relative. Then \<open>ArtifactGrounder.ground()\<close>
  returns (a call depth above every rank suffices), and for every HighLevel node \<open>h\<close>
  that covers at least one directory, where \<open>ds\<close> is the set of the directories of the
  LowLevel nodes with a path that the hierarchy reaches below \<open>h\<close> (those without a path
  contribute nothing and raise no error), in any order of enumeration:
  \<open>computeLCA ds\<close> is not empty; afterwards \<open>metadata.entityType\<close> of \<open>h\<close> is module and
  \<open>metadata.path\<close> is the smallest LCA path; when there is more than one LCA path,
  \<open>metadata.extra.paths\<close> is the ascending list of all of them; every other entry of
  \<open>metadata.extra\<close> is the one the node had before, and with one LCA path
  \<open>metadata.extra\<close> is untouched. LowLevel nodes and the edges are as before.
\<close>

theorem ground_assigns_smallest_lca_path:
  assumes "idsOk g" and "acyclicBy rank g"
    and "\<forall>k \<in> fst ` set (nodes g). rank k < fuel"
    and "highAboveHigh g" and "relativePaths g"
  shows "\<exists>g'. ground fuel g = Some g'
     \<and> edges g' = edges g
     \<and> (\<forall>h n. getNode g h = Some n \<and> isLowLevelNode n \<longrightarrow> getNode g' h = Some n)
     \<and> (\<forall>h n ds. getNode g h = Some n \<and> isHighLevelNode n
           \<and> ds \<noteq> [] \<and> distinct ds \<and> set ds = {d. covers g h d} \<longrightarrow>
           computeLCA ds \<noteq> []
           \<and> (\<exists>m'. map_option metadata (getNode g' h) = Some (Some m')
                 \<and> entityType m' = EModule
                 \<and> path m' = Some (hd (sort (computeLCA ds)))
                 \<and> (length (computeLCA ds) > 1 \<longrightarrow>
                       map_of (extraOf (Some m')) ''paths'' = Some (JStrings (sort (computeLCA ds))))
                 \<and> (length (computeLCA ds) = 1 \<longrightarrow> extraOf (Some m') = extraOf (metadata n))
                 \<and> (\<forall>k. k \<noteq> ''paths'' \<longrightarrow>
                       map_of (extraOf (Some m')) k = map_of (extraOf (metadata n)) k)))"
proof -
  from ground_grounds [OF assms] obtain g' where
    run: "ground fuel g = Some g'" and inv: "groundInv g g'"
    and gr: "\<And>h n. getNode g h = Some n \<Longrightarrow> isHighLevelNode n \<Longrightarrow> \<exists>d. covers g h d
               \<Longrightarrow> getNode g' h = Some (groundedNode g h n)"
    by blast
  have e: "edges g' = edges g" using inv by (simp add: groundInv_def)
  have low: "getNode g' h = Some n" if "getNode g h = Some n" "isLowLevelNode n" for h n
    using groundInv_node0 [OF inv that(1)] that(2) by auto
  have high: "computeLCA ds \<noteq> []
           \<and> (\<exists>m'. map_option metadata (getNode g' h) = Some (Some m')
                 \<and> entityType m' = EModule
                 \<and> path m' = Some (hd (sort (computeLCA ds)))
                 \<and> (length (computeLCA ds) > 1 \<longrightarrow>
                       map_of (extraOf (Some m')) ''paths'' = Some (JStrings (sort (computeLCA ds))))
                 \<and> (length (computeLCA ds) = 1 \<longrightarrow> extraOf (Some m') = extraOf (metadata n))
                 \<and> (\<forall>k. k \<noteq> ''paths'' \<longrightarrow>
                       map_of (extraOf (Some m')) k = map_of (extraOf (metadata n)) k))"
    if h: "getNode g h = Some n" "isHighLevelNode n"
      and ds: "ds \<noteq> []" "distinct ds" "set ds = {d. covers g h d}" for h n ds
  proof -
    let ?S = "{d. covers g h d}"
    let ?L = "computeLCA (sorted_list_of_set ?S)"
    have fin: "finite ?S" using ds(3) by (metis List.finite_set)
    have "\<exists>d. covers g h d"
    proof -
      from ds(1) obtain d where "d \<in> set ds" by (cases ds) auto
      then show ?thesis using ds(3) by auto
    qed
    from gr [OF h this] have g'h: "getNode g' h = Some (groundedNode g h n)" .
    have "\<forall>d \<in> set ds. segments d \<noteq> []"
      using ds(3) covers_segments [OF _ assms(5)] by auto
    with ds(1) have ne: "computeLCA ds \<noteq> []" by (rule computeLCA_nonempty)
    have sl: "distinct (sorted_list_of_set ?S)" "set (sorted_list_of_set ?S) = set ds"
      using fin ds(3) by simp_all
    have so: "sort ?L = sort (computeLCA ds)" and le: "length ?L = length (computeLCA ds)"
      using sort_computeLCA [OF sl(1) ds(2) sl(2)] by simp_all
    let ?m = "groundedMetadata n (hd (sort (computeLCA ds)))
                (if length (computeLCA ds) > 1 then Some (sort (computeLCA ds)) else None)"
    have md: "metadata (groundedNode g h n) = Some ?m"
      by (simp add: groundedNode_def Let_def so le)
    have len: "length (computeLCA ds) = 1 \<or> length (computeLCA ds) > 1"
      using ne by (cases "computeLCA ds") auto
    have "map_option metadata (getNode g' h) = Some (Some ?m)"
      using g'h md by simp
    moreover have "entityType ?m = EModule" by (rule groundedMetadata_fields)
    moreover have "path ?m = Some (hd (sort (computeLCA ds)))" by (rule groundedMetadata_fields)
    moreover have "length (computeLCA ds) > 1 \<longrightarrow>
        map_of (extraOf (Some ?m)) ''paths'' = Some (JStrings (sort (computeLCA ds)))"
      by (simp add: groundedMetadata_fields update_conv')
    moreover have "length (computeLCA ds) = 1 \<longrightarrow> extraOf (Some ?m) = extraOf (metadata n)"
      by (simp add: groundedMetadata_fields)
    moreover have "\<forall>k. k \<noteq> ''paths'' \<longrightarrow>
        map_of (extraOf (Some ?m)) k = map_of (extraOf (metadata n)) k"
      using len by (auto simp: groundedMetadata_fields update_conv')
    ultimately show ?thesis using ne by blast
  qed
  show ?thesis
  proof (rule exI [of _ g'], intro conjI allI impI)
    show "ground fuel g = Some g'" by (rule run)
    show "edges g' = edges g" by (rule e)
    show "getNode g' h = Some n" if "getNode g h = Some n \<and> isLowLevelNode n" for h n
      using that low by blast
  next
    fix h n ds
    assume a: "getNode g h = Some n \<and> isHighLevelNode n
           \<and> ds \<noteq> [] \<and> distinct ds \<and> set ds = {d. covers g h d}"
    then have "computeLCA ds \<noteq> []
           \<and> (\<exists>m'. map_option metadata (getNode g' h) = Some (Some m')
                 \<and> entityType m' = EModule
                 \<and> path m' = Some (hd (sort (computeLCA ds)))
                 \<and> (length (computeLCA ds) > 1 \<longrightarrow>
                       map_of (extraOf (Some m')) ''paths'' = Some (JStrings (sort (computeLCA ds))))
                 \<and> (length (computeLCA ds) = 1 \<longrightarrow> extraOf (Some m') = extraOf (metadata n))
                 \<and> (\<forall>k. k \<noteq> ''paths'' \<longrightarrow>
                       map_of (extraOf (Some m')) k = map_of (extraOf (metadata n)) k))"
      using high by blast
    then show "computeLCA ds \<noteq> []" 
      and "\<exists>m'. map_option metadata (getNode g' h) = Some (Some m')
                 \<and> entityType m' = EModule
                 \<and> path m' = Some (hd (sort (computeLCA ds)))
                 \<and> (length (computeLCA ds) > 1 \<longrightarrow>
                       map_of (extraOf (Some m')) ''paths'' = Some (JStrings (sort (computeLCA ds))))
                 \<and> (length (computeLCA ds) = 1 \<longrightarrow> extraOf (Some m') = extraOf (metadata n))
                 \<and> (\<forall>k. k \<noteq> ''paths'' \<longrightarrow>
                       map_of (extraOf (Some m')) k = map_of (extraOf (metadata n)) k)"
      by blast+
  qed
qed

theorem ground_assigns_smallest_lca_path_witness:
  "idsOk exCrossCutting \<and> acyclicBy exRank exCrossCutting
   \<and> list_all (\<lambda>k. exRank k < 2) (map fst (nodes exCrossCutting))
   \<and> highAboveHigh exCrossCutting \<and> relativePaths exCrossCutting
   \<and> set [''src/utils'', ''tests/utils''] = {d. covers exCrossCutting ''domain:CrossCutting'' d}
   \<and> (\<exists>g' m'. ground 2 exCrossCutting = Some g'
         \<and> map_option metadata (getNode g' ''domain:CrossCutting'') = Some (Some m')
         \<and> entityType m' = EModule \<and> path m' = Some ''src/utils''
         \<and> map_of (extraOf (Some m')) ''paths'' = Some (JStrings [''src/utils'', ''tests/utils'']))"
proof -
  have b: "\<forall>k \<in> fst ` set (nodes exCrossCutting). exRank k < 2"
    by (simp add: exRank_def)
  have n: "getNode exCrossCutting ''domain:CrossCutting'' = Some (exHigh ''domain:CrossCutting'')"
    by code_simp
  have hi: "isHighLevelNode (exHigh ''domain:CrossCutting'')"
    by (simp add: exHigh_def isHighLevelNode_def)
  from ground_assigns_smallest_lca_path [OF idsOk_exCrossCutting acyclicBy_exCrossCutting b
      highAboveHigh_exCrossCutting relativePaths_exCrossCutting]
  obtain g' where run: "ground 2 exCrossCutting = Some g'"
    and gr: "\<forall>h n ds. getNode exCrossCutting h = Some n \<and> isHighLevelNode n
           \<and> ds \<noteq> [] \<and> distinct ds \<and> set ds = {d. covers exCrossCutting h d} \<longrightarrow>
           computeLCA ds \<noteq> []
           \<and> (\<exists>m'. map_option metadata (getNode g' h) = Some (Some m')
                 \<and> entityType m' = EModule
                 \<and> path m' = Some (hd (sort (computeLCA ds)))
                 \<and> (length (computeLCA ds) > 1 \<longrightarrow>
                       map_of (extraOf (Some m')) ''paths'' = Some (JStrings (sort (computeLCA ds))))
                 \<and> (length (computeLCA ds) = 1 \<longrightarrow> extraOf (Some m') = extraOf (metadata n))
                 \<and> (\<forall>k. k \<noteq> ''paths'' \<longrightarrow>
                       map_of (extraOf (Some m')) k = map_of (extraOf (metadata n)) k))"
    by blast
  have "getNode exCrossCutting ''domain:CrossCutting'' = Some (exHigh ''domain:CrossCutting'')
        \<and> isHighLevelNode (exHigh ''domain:CrossCutting'')
        \<and> [''src/utils'', ''tests/utils''] \<noteq> [] \<and> distinct [''src/utils'', ''tests/utils'']
        \<and> set [''src/utils'', ''tests/utils''] = {d. covers exCrossCutting ''domain:CrossCutting'' d}"
    using n hi covers_exCrossCutting by simp
  with gr have "\<exists>m'. map_option metadata (getNode g' ''domain:CrossCutting'') = Some (Some m')
                 \<and> entityType m' = EModule
                 \<and> path m' = Some (hd (sort (computeLCA [''src/utils'', ''tests/utils''])))
                 \<and> (length (computeLCA [''src/utils'', ''tests/utils'']) > 1 \<longrightarrow>
                       map_of (extraOf (Some m')) ''paths''
                         = Some (JStrings (sort (computeLCA [''src/utils'', ''tests/utils'']))))"
    by blast
  then obtain m' where
    "map_option metadata (getNode g' ''domain:CrossCutting'') = Some (Some m')"
    "entityType m' = EModule" "path m' = Some ''src/utils''"
    "map_of (extraOf (Some m')) ''paths'' = Some (JStrings [''src/utils'', ''tests/utils''])"
    unfolding computeLCA_exCrossCutting by auto
  with run have "\<exists>g' m'. ground 2 exCrossCutting = Some g'
         \<and> map_option metadata (getNode g' ''domain:CrossCutting'') = Some (Some m')
         \<and> entityType m' = EModule \<and> path m' = Some ''src/utils''
         \<and> map_of (extraOf (Some m')) ''paths'' = Some (JStrings [''src/utils'', ''tests/utils''])"
    by blast
  moreover have "list_all (\<lambda>k. exRank k < 2) (map fst (nodes exCrossCutting))"
    by (simp add: exRank_def list_all_iff)
  ultimately show ?thesis
    using idsOk_exCrossCutting acyclicBy_exCrossCutting highAboveHigh_exCrossCutting
      relativePaths_exCrossCutting covers_exCrossCutting
    by simp
qed

end
